theory Spec2Isabelle
  imports Main
begin

section \<open>The FreeDict generator: TEI normalisation, entry extraction, headword index\<close>

text \<open>
  A shallow embedding of \<^verbatim>\<open>freedict-generator-lite.py\<close>: the TEI normaliser
  (\<^verbatim>\<open>remove_namespace\<close>, \<^verbatim>\<open>handle_includes\<close>, \<^verbatim>\<open>handle_super_entries\<close>,
  \<^verbatim>\<open>preprocess\<close>), the extractors (\<^verbatim>\<open>collect\<close>, \<^verbatim>\<open>collect_sense\<close>) and the loop
  of the main program that merges the entries by orthography.
\<close>

subsection \<open>Data model\<close>

text \<open>
  An \<^verbatim>\<open>xml.etree.ElementTree.Element\<close>: its tag, its attributes (a dict, kept as an
  association list), its direct text (\<^verbatim>\<open>element.text\<close>, here \<open>text_of\<close>) and its tail
  (each \<^verbatim>\<open>None\<close> or a string) and its children in document order. The parser leaves
  comments and processing instructions out, so every tag is a string.
\<close>

datatype Element =
  Element (tag: string) (attrib: "(string \<times> string) list") (text_of: "string option")
    (tail: "string option") (children: "Element list")

text \<open>
  \<^verbatim>\<open>DictSense\<close> and \<^verbatim>\<open>DictEntry\<close>: every field starts as \<^verbatim>\<open>None\<close> and becomes a
  list at the first append. The lists \<^verbatim>\<open>quotes\<close>, \<^verbatim>\<open>defs\<close> and \<^verbatim>\<open>gen\<close> receive
  \<^verbatim>\<open>element.text\<close> unguarded, so their items are \<^verbatim>\<open>None\<close> or a string; \<^verbatim>\<open>orth\<close>,
  \<^verbatim>\<open>pron\<close> and \<^verbatim>\<open>pos\<close> only receive a text that is not \<^verbatim>\<open>None\<close>.
\<close>

record DictSense =
  quotes :: "string option list option"
  defs :: "string option list option"

record DictEntry =
  orth :: "string list option"
  pron :: "string list option"
  gen :: "string option list option"
  pos :: "string list option"
  senses :: "DictSense list option"

definition new_DictSense :: DictSense where
  "new_DictSense = \<lparr>quotes = None, defs = None\<rparr>"

definition new_DictEntry :: DictEntry where
  "new_DictEntry = \<lparr>orth = None, pron = None, gen = None, pos = None, senses = None\<rparr>"

text \<open>The exceptions the modelled functions can raise.\<close>

datatype error =
  TypeError
  | ParseFailed string
  | ValueError
  | RecursionError

text \<open>
  The files \<^verbatim>\<open>ElementTree.parse\<close> can read: the root element of the document at a
  path, \<open>None\<close> where the file is missing or is not well-formed XML.
\<close>

type_synonym files = "string \<Rightarrow> Element option"

text \<open>What has been written to \<^verbatim>\<open>sys.stderr\<close>, one item per \<^verbatim>\<open>write\<close>.\<close>

type_synonym stderr = "string list"

subsection \<open>Strings\<close>

text \<open>\<^verbatim>\<open>sep.join(xs)\<close>.\<close>

fun join :: "string \<Rightarrow> string list \<Rightarrow> string" where
  "join sep [] = []"
| "join sep [x] = x"
| "join sep (x # y # ys) = x @ sep @ join sep (y # ys)"

text \<open>\<^verbatim>\<open>s.startswith(p)\<close>.\<close>

definition startswith :: "string \<Rightarrow> string \<Rightarrow> bool" where
  "startswith s p \<longleftrightarrow> take (length p) s = p"

definition tei_ns :: string where
  "tei_ns = ''{http://www.tei-c.org/ns/1.0}''"

definition xi_include :: string where
  "xi_include = ''{http://www.w3.org/2001/XInclude}include''"

definition tei_superEntry :: string where
  "tei_superEntry = ''{http://www.tei-c.org/ns/1.0}superEntry''"

subsection \<open>The sense extractor and the entry extractor\<close>

text \<open>
  The idiom \<^verbatim>\<open>if f is None: f = [v] else: f.append(v)\<close> that both extractors use for
  every field.
\<close>

fun append_field :: "'a list option \<Rightarrow> 'a \<Rightarrow> 'a list option" where
  "append_field None v = Some [v]"
| "append_field (Some l) v = Some (l @ [v])"

text \<open>
  \<^verbatim>\<open>prefix.pop()\<close>. Both extractors push the tag on entry and pop on exit, and the
  list they receive back from the children is the one they passed down
  (\<open>collect_sense_prefix\<close>, \<open>collect_prefix\<close> below), so \<^verbatim>\<open>pop\<close> never meets an empty
  list.
\<close>

definition pop :: "string list \<Rightarrow> string list" where
  "pop prefix = butlast prefix"

text \<open>
  \<^verbatim>\<open>collect_sense(element, sense, prefix)\<close>. The sense and the shared list
  \<^verbatim>\<open>prefix\<close> are mutated in place; the model passes both in and returns both.
\<close>

fun collect_sense :: "Element \<Rightarrow> DictSense \<times> string list \<Rightarrow> DictSense \<times> string list"
  and collect_sense_children ::
    "Element list \<Rightarrow> DictSense \<times> string list \<Rightarrow> DictSense \<times> string list"
where
  "collect_sense (Element t a x y cs) (sense, prefix0) =
     (let prefix = prefix0 @ [t];
          path = join ''.'' prefix;
          sense1 =
            (if path = ''entry.sense.cit.quote'' then
               sense\<lparr>quotes := append_field (quotes sense) x\<rparr>
             else if path = ''entry.sense.sense.def'' then
               sense\<lparr>defs := append_field (defs sense) x\<rparr>
             else sense)
      in case collect_sense_children cs (sense1, prefix) of
           (sense2, prefix2) \<Rightarrow> (sense2, pop prefix2))"
| "collect_sense_children [] st = st"
| "collect_sense_children (child # rest) st =
     collect_sense_children rest (collect_sense child st)"

text \<open>
  \<^verbatim>\<open>collect(element, output, prefix)\<close>. The branch for \<^verbatim>\<open>entry.sense\<close> pops the
  tag it has just pushed, hands the same element to \<^verbatim>\<open>collect_sense\<close> with a fresh
  \<^verbatim>\<open>DictSense\<close> and returns without walking the children itself.
\<close>

fun collect :: "Element \<Rightarrow> DictEntry \<times> string list \<Rightarrow> DictEntry \<times> string list"
  and collect_children ::
    "Element list \<Rightarrow> DictEntry \<times> string list \<Rightarrow> DictEntry \<times> string list"
where
  "collect (Element t a x y cs) (output, prefix0) =
     (let prefix = prefix0 @ [t];
          path = join ''.'' prefix
      in if path = ''entry.form.orth'' then
           (case collect_children cs
                   (case x of None \<Rightarrow> output
                    | Some s \<Rightarrow> output\<lparr>orth := append_field (orth output) s\<rparr>, prefix) of
              (output2, prefix2) \<Rightarrow> (output2, pop prefix2))
         else if path = ''entry.form.pron'' then
           (case collect_children cs
                   (case x of None \<Rightarrow> output
                    | Some s \<Rightarrow> output\<lparr>pron := append_field (pron output) s\<rparr>, prefix) of
              (output2, prefix2) \<Rightarrow> (output2, pop prefix2))
         else if path = ''entry.gramGrp.gen'' then
           (case collect_children cs
                   (output\<lparr>gen := append_field (gen output) x\<rparr>, prefix) of
              (output2, prefix2) \<Rightarrow> (output2, pop prefix2))
         else if path = ''entry.gramGrp.pos'' then
           (case collect_children cs
                   (case x of None \<Rightarrow> output
                    | Some s \<Rightarrow>
                        (case pos output of None \<Rightarrow> output\<lparr>pos := Some [s]\<rparr>
                         | Some l \<Rightarrow>
                             if s \<notin> set l then output\<lparr>pos := Some (l @ [s])\<rparr>
                             else output), prefix) of
              (output2, prefix2) \<Rightarrow> (output2, pop prefix2))
         else if path = ''entry.sense'' then
           (case collect_sense (Element t a x y cs) (new_DictSense, pop prefix) of
              (sense, prefix2) \<Rightarrow>
                (output\<lparr>senses := append_field (senses output) sense\<rparr>, prefix2))
         else
           (case collect_children cs (output, prefix) of
              (output2, prefix2) \<Rightarrow> (output2, pop prefix2)))"
| "collect_children [] st = st"
| "collect_children (child # rest) st = collect_children rest (collect child st)"

text \<open>
  The subtree in document order, each element with the dotted path the extractors
  compute for it when the walk starts with the given prefix. It is the yardstick for
  what the two walks gather, not a part of the program.
\<close>

fun walk :: "string list \<Rightarrow> Element \<Rightarrow> (string \<times> Element) list"
  and walk_children :: "string list \<Rightarrow> Element list \<Rightarrow> (string \<times> Element) list"
where
  "walk prefix (Element t a x y cs) =
     (join ''.'' (prefix @ [t]), Element t a x y cs) # walk_children (prefix @ [t]) cs"
| "walk_children prefix [] = []"
| "walk_children prefix (c # cs) = walk prefix c @ walk_children prefix cs"

text \<open>The example entry of the specification, as the parser delivers it.\<close>

definition cat_entry :: Element where
  "cat_entry =
     Element ''entry'' [] None None
       [Element ''form'' [] None None [Element ''orth'' [] (Some ''cat'') None []],
        Element ''gramGrp'' [] None None [Element ''pos'' [] (Some ''n'') None []],
        Element ''sense'' [] None None
          [Element ''cit'' [] None None
             [Element ''quote'' [] (Some ''Example.'') None []],
           Element ''sense'' [] None None
             [Element ''def'' [] (Some ''A feline.'') None []]]]"

subsection \<open>The TEI normaliser\<close>

text \<open>
  \<^verbatim>\<open>remove_namespace(element)\<close>: a tag that starts with the TEI namespace loses it;
  any other tag is written to \<^verbatim>\<open>sys.stderr\<close> and left as it is.
\<close>

fun remove_namespace :: "Element \<Rightarrow> stderr \<Rightarrow> Element \<times> stderr" where
  "remove_namespace (Element t a x y cs) err =
     (if startswith t tei_ns then (Element (drop (length tei_ns) t) a x y cs, err)
      else (Element t a x y cs, err @ [''ERROR: '' @ t @ ''\<newline>'']))"

text \<open>
  \<^verbatim>\<open>findall\<close> and \<^verbatim>\<open>Element.remove\<close> compare elements as objects. An object is
  known here by its location, the child indices that lead to it from the element the
  search starts at. \<open>iter\<close> is \<^verbatim>\<open>element.iter()\<close>: the subtree in document order,
  the element itself first. \<open>findall name e\<close> is \<^verbatim>\<open>e.findall(p)\<close> for the path
  \<^verbatim>\<open>.//name\<close>: every descendant with that tag, the element itself left out, in document
  order; the list is complete before the loop over it starts.
\<close>

fun iter :: "nat list \<Rightarrow> Element \<Rightarrow> (nat list \<times> Element) list"
  and iter_children :: "nat list \<Rightarrow> nat \<Rightarrow> Element list \<Rightarrow> (nat list \<times> Element) list"
where
  "iter loc (Element t a x y cs) = (loc, Element t a x y cs) # iter_children loc 0 cs"
| "iter_children loc i [] = []"
| "iter_children loc i (c # cs) = iter (loc @ [i]) c @ iter_children loc (Suc i) cs"

definition findall :: "string \<Rightarrow> Element \<Rightarrow> (nat list \<times> Element) list" where
  "findall name e = filter (\<lambda>(loc, d). tag d = name) (iter_children [] 0 (children e))"

text \<open>
  \<^verbatim>\<open>handle_includes(parent, path)\<close>. The loop gathers, for every direct child that is
  an inclusion directive, the children of the root of the file named by \<^verbatim>\<open>href\<close>;
  \<^verbatim>\<open>path + "/" + href\<close> raises \<^verbatim>\<open>TypeError\<close> when the attribute is missing, and
  \<^verbatim>\<open>ElementTree.parse\<close> raises when the file cannot be read. Then
  \<^verbatim>\<open>parent.clear()\<close> drops the children, the attributes, the text and the tail of the
  parent (the tag stays) and \<^verbatim>\<open>parent.extend(entries)\<close> installs what was gathered.
\<close>

fun include_entries ::
  "files \<Rightarrow> string \<Rightarrow> Element list \<Rightarrow> Element list \<Rightarrow> error + Element list"
where
  "include_entries fs path [] entries = Inr entries"
| "include_entries fs path (subtree # rest) entries =
     (if tag subtree = xi_include then
        (case map_of (attrib subtree) ''href'' of
           None \<Rightarrow> Inl TypeError
         | Some href \<Rightarrow>
             (case fs (path @ ''/'' @ href) of
                None \<Rightarrow> Inl (ParseFailed (path @ ''/'' @ href))
              | Some root \<Rightarrow> include_entries fs path rest (entries @ children root)))
      else include_entries fs path rest entries)"

definition handle_includes :: "files \<Rightarrow> string \<Rightarrow> Element \<Rightarrow> error + Element" where
  "handle_includes fs path parent =
     (case include_entries fs path (children parent) [] of
        Inl e \<Rightarrow> Inl e
      | Inr entries \<Rightarrow> Inr (Element (tag parent) [] None None entries))"

text \<open>
  \<^verbatim>\<open>handle_super_entries(parent)\<close>. The children of the parent are kept with their
  locations. For every \<^verbatim>\<open>superEntry\<close> found, in document order, its children are
  appended to the parent and \<^verbatim>\<open>parent.remove(super)\<close> takes out the first child that
  is that very object; \<^verbatim>\<open>remove\<close> raises \<^verbatim>\<open>ValueError\<close> when the object is not a
  direct child of the parent at that moment.
\<close>

fun located :: "nat list \<Rightarrow> nat \<Rightarrow> Element list \<Rightarrow> (nat list \<times> Element) list" where
  "located loc i [] = []"
| "located loc i (c # cs) = (loc @ [i], c) # located loc (Suc i) cs"

fun remove_child ::
  "nat list \<Rightarrow> (nat list \<times> Element) list \<Rightarrow> (nat list \<times> Element) list option"
where
  "remove_child loc [] = None"
| "remove_child loc ((l, c) # rest) =
     (if l = loc then Some rest
      else (case remove_child loc rest of None \<Rightarrow> None | Some rest' \<Rightarrow> Some ((l, c) # rest')))"

fun promote ::
  "(nat list \<times> Element) list \<Rightarrow> (nat list \<times> Element) list \<Rightarrow>
     error + (nat list \<times> Element) list"
where
  "promote [] kids = Inr kids"
| "promote ((loc, super) # rest) kids =
     (case remove_child loc (kids @ located loc 0 (children super)) of
        None \<Rightarrow> Inl ValueError
      | Some kids' \<Rightarrow> promote rest kids')"

fun set_children :: "Element \<Rightarrow> Element list \<Rightarrow> Element" where
  "set_children (Element t a x y cs) cs' = Element t a x y cs'"

definition handle_super_entries :: "Element \<Rightarrow> error + Element" where
  "handle_super_entries parent =
     (case promote (findall tei_superEntry parent) (located [] 0 (children parent)) of
        Inl e \<Rightarrow> Inl e
      | Inr kids \<Rightarrow> Inr (set_children parent (map snd kids)))"

text \<open>
  \<^verbatim>\<open>preprocess(element, path)\<close>. The loop
  \<^verbatim>\<open>for child in element: preprocess(child, path)\<close> is \<open>for_each\<close>: it runs the
  children in order, each on the output stream the one before left, and stops at the
  first exception. The children it runs over are those
  the two handlers installed, so the recursion is not on the structure of the argument:
  a file whose content includes the file itself is processed again and again, until
  Python gives up with \<^verbatim>\<open>RecursionError\<close>. The first argument bounds the depth of the
  nested calls as Python's recursion limit does.
\<close>

fun for_each ::
  "(Element \<Rightarrow> stderr \<Rightarrow> error + Element \<times> stderr) \<Rightarrow> Element list \<Rightarrow> stderr \<Rightarrow>
     error + Element list \<times> stderr"
where
  "for_each f [] err = Inr ([], err)"
| "for_each f (child # rest) err =
     (case f child err of
        Inl e \<Rightarrow> Inl e
      | Inr (child', err') \<Rightarrow>
          (case for_each f rest err' of
             Inl e \<Rightarrow> Inl e
           | Inr (rest', err'') \<Rightarrow> Inr (child' # rest', err'')))"

fun preprocess ::
  "nat \<Rightarrow> files \<Rightarrow> string \<Rightarrow> Element \<Rightarrow> stderr \<Rightarrow> error + Element \<times> stderr"
where
  "preprocess 0 fs path element err = Inl RecursionError"
| "preprocess (Suc limit) fs path element err =
     (case remove_namespace element err of
        (element1, err1) \<Rightarrow>
          (case (if tag element1 = ''body'' \<and> findall xi_include element1 \<noteq> []
                 then handle_includes fs path element1 else Inr element1) of
             Inl e \<Rightarrow> Inl e
           | Inr element2 \<Rightarrow>
               (case (if tag element2 = ''body'' \<and> findall tei_superEntry element2 \<noteq> []
                      then handle_super_entries element2 else Inr element2) of
                  Inl e \<Rightarrow> Inl e
                | Inr element3 \<Rightarrow>
                    (case for_each (\<lambda>child out. preprocess limit fs path child out)
                            (children element3) err1 of
                       Inl e \<Rightarrow> Inl e
                     | Inr (cs, err2) \<Rightarrow> Inr (set_children element3 cs, err2)))))"

text \<open>
  Namespace stripping alone: \<open>remove_namespace\<close> on every element of the tree, a
  parent before its children, and nothing else. It is what the specification compares
  \<open>preprocess\<close> with, not a part of the program.
\<close>

fun strip_namespaces :: "Element \<Rightarrow> stderr \<Rightarrow> Element \<times> stderr"
  and strip_children :: "Element list \<Rightarrow> stderr \<Rightarrow> Element list \<times> stderr"
where
  "strip_namespaces (Element t a x y cs) err =
     (case remove_namespace (Element t a x y cs) err of
        (element1, err1) \<Rightarrow>
          (case strip_children cs err1 of
             (cs', err2) \<Rightarrow> (set_children element1 cs', err2)))"
| "strip_children [] err = ([], err)"
| "strip_children (c # cs) err =
     (case strip_namespaces c err of
        (c', err1) \<Rightarrow> (case strip_children cs err1 of (cs', err2) \<Rightarrow> (c' # cs', err2)))"

text \<open>
  The number of nested calls \<open>preprocess\<close> needs for a tree that has no
  inclusion, and the tags that occur in a tree.
\<close>

fun height :: "Element \<Rightarrow> nat"
  and height_children :: "Element list \<Rightarrow> nat"
where
  "height (Element t a x y cs) = Suc (height_children cs)"
| "height_children [] = 0"
| "height_children (c # cs) = max (height c) (height_children cs)"

fun tags :: "Element \<Rightarrow> string list"
  and tags_children :: "Element list \<Rightarrow> string list"
where
  "tags (Element t a x y cs) = t # tags_children cs"
| "tags_children [] = []"
| "tags_children (c # cs) = tags c @ tags_children cs"

subsection \<open>The headword index\<close>

text \<open>
  The dict \<^verbatim>\<open>entries\<close> of the main program, from an orthographic form to the entries
  that declare it. \<open>merge_orths\<close> is the loop \<^verbatim>\<open>for orth in entry.orth\<close>,
  \<open>merge_entry\<close> the guard around it, \<open>index_body\<close> the loop over the
  children of the normalised body, and \<open>aggregate\<close> the same merging for a
  sequence of entries that have been extracted already.
\<close>

type_synonym index = "string \<Rightarrow> DictEntry list option"

fun merge_orths :: "string list \<Rightarrow> DictEntry \<Rightarrow> index \<Rightarrow> index" where
  "merge_orths [] entry entries = entries"
| "merge_orths (form # rest) entry entries =
     merge_orths rest entry
       (case entries form of
          Some l \<Rightarrow> entries(form \<mapsto> l @ [entry])
        | None \<Rightarrow> entries(form \<mapsto> [entry]))"

definition merge_entry :: "DictEntry \<Rightarrow> index \<Rightarrow> index" where
  "merge_entry entry entries =
     (case orth entry of None \<Rightarrow> entries | Some os \<Rightarrow> merge_orths os entry entries)"

fun index_body :: "Element list \<Rightarrow> index \<Rightarrow> index" where
  "index_body [] entries = entries"
| "index_body (element # rest) entries =
     (if tag element = ''entry'' then
        index_body rest (merge_entry (fst (collect element (new_DictEntry, []))) entries)
      else index_body rest entries)"

fun aggregate :: "DictEntry list \<Rightarrow> index \<Rightarrow> index" where
  "aggregate [] entries = entries"
| "aggregate (entry # rest) entries = aggregate rest (merge_entry entry entries)"

subsection \<open>Notions the properties are stated with\<close>

text \<open>
  The elements of a walk that sit at a given dotted path, in document order; the number
  of dots in a path; a field after a sequence of appends; and "no part of speech occurs
  twice". None of them is a part of the program.
\<close>

definition found :: "string \<Rightarrow> (string \<times> Element) list \<Rightarrow> Element list" where
  "found path ws = map snd (filter (\<lambda>w. fst w = path) ws)"

definition ndots :: "string \<Rightarrow> nat" where
  "ndots s = length (filter (\<lambda>c. c = CHR ''.'') s)"

definition extend_field :: "'a list option \<Rightarrow> 'a list \<Rightarrow> 'a list option" where
  "extend_field f vs = foldl append_field f vs"

definition pos_distinct :: "DictEntry \<Rightarrow> bool" where
  "pos_distinct e = (case pos e of None \<Rightarrow> True | Some l \<Rightarrow> distinct l)"

text \<open>
  Two more inputs: an entry with a repeated part of speech, a \<^verbatim>\<open><gen/>\<close> without
  text, two senses and sub-senses; and a sense with a quote and a definition that have
  no text.
\<close>

definition run_entry :: Element where
  "run_entry =
     Element ''entry'' [] None None
       [Element ''form'' [] None None [Element ''orth'' [] (Some ''run'') None []],
        Element ''gramGrp'' [] None None
          [Element ''pos'' [] (Some ''v'') None [],
           Element ''pos'' [] (Some ''v'') None [],
           Element ''gen'' [] None None []],
        Element ''sense'' [] None None
          [Element ''cit'' [] None None [Element ''quote'' [] (Some ''I run.'') None []],
           Element ''sense'' [] None None [Element ''def'' [] (Some ''move fast'') None []],
           Element ''sense'' [] None None [Element ''def'' [] None None []]],
        Element ''sense'' [] None None
          [Element ''cit'' [] None None [Element ''quote'' [] None None []]]]"

definition textless_sense :: Element where
  "textless_sense =
     Element ''sense'' [] None None
       [Element ''cit'' [] None None
          [Element ''quote'' [] (Some ''first'') None [], Element ''quote'' [] None None []],
        Element ''sense'' [] None None [Element ''def'' [] None None []]]"

text \<open>
  An entry whose elements at the four leaf paths have no text, after one gender that has.
\<close>

definition gen_entry :: Element where
  "gen_entry =
     Element ''entry'' [] None None
       [Element ''form'' [] None None
          [Element ''orth'' [] None None [], Element ''pron'' [] None None []],
        Element ''gramGrp'' [] None None
          [Element ''gen'' [] (Some ''m'') None [],
           Element ''gen'' [] None None [],
           Element ''pos'' [] None None []]]"

subsection \<open>Notions for the headword index\<close>

text \<open>
  What the bucket of a form has to hold for a sequence of entries: every entry once for
  each time its orthography list has the form, in the order of the sequence. \<open>got\<close>
  reads a bucket, absent as empty. Then three entries to try the index on.
\<close>

definition bucket :: "string \<Rightarrow> DictEntry list \<Rightarrow> DictEntry list" where
  "bucket k es =
     concat (map (\<lambda>e. case orth e of None \<Rightarrow> []
                       | Some os \<Rightarrow> map (\<lambda>_. e) (filter (\<lambda>form. form = k) os)) es)"

definition got :: "index \<Rightarrow> string \<Rightarrow> DictEntry list" where
  "got m k = (case m k of None \<Rightarrow> [] | Some l \<Rightarrow> l)"

definition no_empty_bucket :: "index \<Rightarrow> bool" where
  "no_empty_bucket m \<longleftrightarrow> (\<forall>k. m k \<noteq> Some [])"

definition run_verb :: DictEntry where
  "run_verb = new_DictEntry\<lparr>orth := Some [''run''], pos := Some [''v'']\<rparr>"

definition run_noun :: DictEntry where
  "run_noun = new_DictEntry\<lparr>orth := Some [''run'', ''runs''], pos := Some [''n'']\<rparr>"

definition no_headword :: DictEntry where
  "no_headword = new_DictEntry\<lparr>pos := Some [''adv'']\<rparr>"

subsection \<open>Notions for the normaliser\<close>

text \<open>
  A bare name is a tag without a namespace, which \<^verbatim>\<open>ElementTree\<close> writes in braces in
  front of the local name. \<open>error_line\<close> is the line \<open>remove_namespace\<close> writes for a
  tag. \<open>bare_entry\<close> is an entry of a document that declares no namespace for it, with
  a child in the TEI namespace.
\<close>

definition bare_name :: "string \<Rightarrow> bool" where
  "bare_name t \<longleftrightarrow> CHR ''{'' \<notin> set t"

definition error_line :: "string \<Rightarrow> string" where
  "error_line t = ''ERROR: '' @ t @ ''\<newline>''"

definition bare_entry :: Element where
  "bare_entry =
     Element ''entry'' [] None None
       [Element ''{http://www.tei-c.org/ns/1.0}form'' [] None None []]"

text \<open>
  A tag as the parser writes it: a local name, or a namespace in braces and then the
  local name. Neither a namespace (a URI) nor a local name contains an opening brace,
  so the only one a tag can have is its first character. \<open>strip_tag\<close> is what
  \<open>remove_namespace\<close> does to a tag. Then a body without inclusion and without
  \<^verbatim>\<open>superEntry\<close>, and the tree it is normalised to.
\<close>

definition qname :: "string \<Rightarrow> bool" where
  "qname t \<longleftrightarrow> CHR ''{'' \<notin> set (drop 1 t)"

definition strip_tag :: "string \<Rightarrow> string" where
  "strip_tag t = (if startswith t tei_ns then drop (length tei_ns) t else t)"

definition plain_body :: Element where
  "plain_body =
     Element ''{http://www.tei-c.org/ns/1.0}body'' [] None None
       [Element ''{http://www.tei-c.org/ns/1.0}entry'' [(''n'', ''1'')] None None
          [Element ''{http://www.tei-c.org/ns/1.0}form'' [] None None
             [Element ''{http://www.tei-c.org/ns/1.0}orth'' [] (Some ''cat'') None []]],
        Element ''note'' [] (Some ''x'') None []]"

definition plain_body_stripped :: Element where
  "plain_body_stripped =
     Element ''body'' [] None None
       [Element ''entry'' [(''n'', ''1'')] None None
          [Element ''form'' [] None None [Element ''orth'' [] (Some ''cat'') None []]],
        Element ''note'' [] (Some ''x'') None []]"

text \<open>
  A body with one \<^verbatim>\<open>superEntry\<close> of two entries between two entries, as
  \<open>handle_super_entries\<close> meets it (the tag of the body stripped, those below not yet);
  and a body whose only \<^verbatim>\<open>superEntry\<close> lies one level deeper, in a \<^verbatim>\<open>div\<close>.
\<close>

definition super_body :: Element where
  "super_body =
     Element ''body'' [] None None
       [Element ''{http://www.tei-c.org/ns/1.0}entry'' [] (Some ''a'') None [],
        Element ''{http://www.tei-c.org/ns/1.0}superEntry'' [] None None
          [Element ''{http://www.tei-c.org/ns/1.0}entry'' [] (Some ''b'') None [],
           Element ''{http://www.tei-c.org/ns/1.0}entry'' [] (Some ''c'') None []],
        Element ''{http://www.tei-c.org/ns/1.0}entry'' [] (Some ''d'') None []]"

definition nested_super_body :: Element where
  "nested_super_body =
     Element ''body'' [] None None
       [Element ''{http://www.tei-c.org/ns/1.0}div'' [] None None
          [Element ''{http://www.tei-c.org/ns/1.0}superEntry'' [] None None
             [Element ''{http://www.tei-c.org/ns/1.0}entry'' [] (Some ''b'') None [],
              Element ''{http://www.tei-c.org/ns/1.0}entry'' [] (Some ''c'') None []]]]"

text \<open>
  Three included files and the bodies that include two of them, with an entry of the
  body's own between the two directives. The file \<^verbatim>\<open>c.tei\<close> holds an inclusion
  directive itself.
\<close>

definition file_a :: Element where
  "file_a =
     Element ''{http://www.tei-c.org/ns/1.0}div'' [] None None
       [Element ''{http://www.tei-c.org/ns/1.0}entry'' [] (Some ''a1'') None [],
        Element ''{http://www.tei-c.org/ns/1.0}entry'' [] (Some ''a2'') None []]"

definition file_b :: Element where
  "file_b =
     Element ''{http://www.tei-c.org/ns/1.0}div'' [] None None
       [Element ''{http://www.tei-c.org/ns/1.0}entry'' [] (Some ''b1'') None []]"

definition file_c :: Element where
  "file_c =
     Element ''{http://www.tei-c.org/ns/1.0}div'' [] None None
       [Element ''{http://www.w3.org/2001/XInclude}include'' [(''href'', ''a.tei'')] None None [],
        Element ''{http://www.tei-c.org/ns/1.0}entry'' [] (Some ''c1'') None []]"

definition example_files :: files where
  "example_files p =
     (if p = ''temp/a.tei'' then Some file_a
      else if p = ''temp/b.tei'' then Some file_b
      else if p = ''temp/c.tei'' then Some file_c
      else None)"

definition include_body :: "string \<Rightarrow> string \<Rightarrow> Element" where
  "include_body a b =
     Element ''body'' [(''n'', ''1'')] (Some ''text'') None
       [Element ''{http://www.w3.org/2001/XInclude}include'' [(''href'', a)] None None [],
        Element ''{http://www.tei-c.org/ns/1.0}entry'' [] (Some ''own'') None [],
        Element ''{http://www.w3.org/2001/XInclude}include'' [(''href'', b)] None None []]"

section \<open>Properties\<close>

subsection \<open>Paths and prefixes\<close>

lemma ndots_simps [simp]:
  "ndots [] = 0"
  "ndots (c # s) = (if c = CHR ''.'' then Suc (ndots s) else ndots s)"
  by (simp_all add: ndots_def)

lemma ndots_append: "ndots (s @ t) = ndots s + ndots t"
  by (simp add: ndots_def)

lemma ndots_consts:
  "ndots ''entry.form.orth'' = 2"
  "ndots ''entry.form.pron'' = 2"
  "ndots ''entry.gramGrp.gen'' = 2"
  "ndots ''entry.gramGrp.pos'' = 2"
  "ndots ''entry.sense'' = 1"
  "ndots ''entry.sense.cit.quote'' = 3"
  "ndots ''entry.sense.sense.def'' = 3"
  "ndots ''.'' = 1"
  by simp_all

lemma ndots_neq: "ndots s \<noteq> ndots c \<Longrightarrow> s \<noteq> c"
  by auto

lemma join_snoc: "join sep (p @ [t]) = (if p = [] then t else join sep p @ sep @ t)"
  by (induction sep p rule: join.induct) auto

lemma ndots_join_snoc:
  "p \<noteq> [] \<Longrightarrow> ndots (join ''.'' (p @ [t])) = Suc (ndots (join ''.'' p) + ndots t)"
  by (simp add: join_snoc ndots_append)

text \<open>
  Both walks hand the prefix back as they received it: every push is undone by the
  pop that follows the children, and the branch for \<^verbatim>\<open>entry.sense\<close> pops before it
  delegates. So \<^verbatim>\<open>prefix.pop()\<close> always finds the tag that was pushed.
\<close>

lemma collect_sense_prefix:
  "snd (collect_sense e st) = snd st"
  "snd (collect_sense_children cs st) = snd st"
  by (induction e st and cs st rule: collect_sense_collect_sense_children.induct)
     (auto simp: pop_def Let_def split: prod.splits)

lemma collect_prefix:
  "snd (collect e st) = snd st"
  "snd (collect_children cs st) = snd st"
proof (induction e st and cs st rule: collect_collect_children.induct)
  case (1 t a x y cs out prefix0)
  show ?case
    using 1 collect_sense_prefix(1)[of "Element t a x y cs" "(new_DictSense, prefix0)"]
    by (auto simp: pop_def Let_def split: prod.splits)
qed auto

subsection \<open>What the sense extractor gathers\<close>

lemma extend_field_simps [simp]:
  "extend_field f [] = f"
  "extend_field f (v # vs) = extend_field (append_field f v) vs"
  "extend_field f (vs @ ws) = extend_field (extend_field f vs) ws"
  by (simp_all add: extend_field_def)

lemma extend_field_Some: "extend_field (Some l) vs = Some (l @ vs)"
  by (induction vs arbitrary: l) simp_all

lemma extend_field_None: "extend_field None vs = (if vs = [] then None else Some vs)"
  by (cases vs) (simp_all add: extend_field_Some)

lemma found_simps [simp]:
  "found path [] = []"
  "found path ((q, d) # ws) = (if q = path then d # found path ws else found path ws)"
  "found path (ws @ vs) = found path ws @ found path vs"
  by (simp_all add: found_def)

lemma collect_sense_walk:
  "collect_sense e st =
     ((fst st)\<lparr>quotes := extend_field (quotes (fst st))
                  (map text_of (found ''entry.sense.cit.quote'' (walk (snd st) e))),
        defs := extend_field (defs (fst st))
                  (map text_of (found ''entry.sense.sense.def'' (walk (snd st) e)))\<rparr>, snd st)"
  "collect_sense_children cs st =
     ((fst st)\<lparr>quotes := extend_field (quotes (fst st))
                  (map text_of (found ''entry.sense.cit.quote'' (walk_children (snd st) cs))),
        defs := extend_field (defs (fst st))
                  (map text_of (found ''entry.sense.sense.def'' (walk_children (snd st) cs)))\<rparr>, snd st)"
proof (induction e st and cs st rule: collect_sense_collect_sense_children.induct)
  case (1 t a x y cs sense prefix0)
  show ?case
    by (simp add: Let_def 1 pop_def)
next
  case (2 st)
  show ?case by simp
next
  case (3 child rest st)
  show ?case
    unfolding collect_sense_children.simps 3(2)
    by (simp add: 3(1))
qed

lemma collect_sense_fresh:
  "collect_sense s (new_DictSense, p) =
     (\<lparr>quotes = (let qs = found ''entry.sense.cit.quote'' (walk p s)
                  in if qs = [] then None else Some (map text_of qs)),
       defs = (let ds = found ''entry.sense.sense.def'' (walk p s)
                in if ds = [] then None else Some (map text_of ds))\<rparr>, p)"
  by (simp add: collect_sense_walk(1) new_DictSense_def extend_field_None Let_def
        del: collect_sense.simps)

lemma walk_ndots:
  "q \<noteq> [] \<Longrightarrow> w \<in> set (walk q e) \<Longrightarrow> ndots (join ''.'' q) < ndots (fst w)"
  "q \<noteq> [] \<Longrightarrow> w \<in> set (walk_children q cs) \<Longrightarrow> ndots (join ''.'' q) < ndots (fst w)"
proof (induction q e and q cs rule: walk_walk_children.induct)
  case (1 prefix t a x y cs)
  from "1.prems" consider "w = (join ''.'' (prefix @ [t]), Element t a x y cs)"
    | "w \<in> set (walk_children (prefix @ [t]) cs)"
    by auto
  then show ?case
  proof cases
    case 1
    then show ?thesis using "1.prems"(1) by (simp add: ndots_join_snoc)
  next
    case 2
    then have "ndots (join ''.'' (prefix @ [t])) < ndots (fst w)"
      using "1.IH" by simp
    then show ?thesis using "1.prems"(1) by (simp add: ndots_join_snoc)
  qed
next
  case (2 prefix)
  then show ?case by simp
next
  case (3 prefix c cs)
  then show ?case by auto
qed

lemma found_deep:
  assumes "q \<noteq> []" and "ndots c \<le> ndots (join ''.'' q)"
  shows "found c (walk_children q cs) = []"
proof -
  have "fst w \<noteq> c" if "w \<in> set (walk_children q cs)" for w
    using walk_ndots(2)[OF assms(1) that] assms(2) by auto
  then show ?thesis
    by (simp add: found_def filter_empty_conv)
qed

lemma collect_sense_quote:
  assumes "join ''.'' (p @ [tag e]) = ''entry.sense.cit.quote''"
  shows "collect_sense e (sense, p) =
           (sense\<lparr>quotes := append_field (quotes sense) (text_of e)\<rparr>, p)"
proof (cases e)
  case (Element t a x y cs)
  with assms have path: "join ''.'' (p @ [t]) = ''entry.sense.cit.quote''" by simp
  then have n: "ndots (join ''.'' (p @ [t])) = 3" by simp
  have "found ''entry.sense.cit.quote'' (walk_children (p @ [t]) cs) = []"
    "found ''entry.sense.sense.def'' (walk_children (p @ [t]) cs) = []"
    using n by (simp_all add: found_deep)
  then show ?thesis
    using path Element by (simp add: collect_sense_walk(1) del: collect_sense.simps)
qed

lemma collect_sense_def:
  assumes "join ''.'' (p @ [tag e]) = ''entry.sense.sense.def''"
  shows "collect_sense e (sense, p) =
           (sense\<lparr>defs := append_field (defs sense) (text_of e)\<rparr>, p)"
proof (cases e)
  case (Element t a x y cs)
  with assms have path: "join ''.'' (p @ [t]) = ''entry.sense.sense.def''" by simp
  then have n: "ndots (join ''.'' (p @ [t])) = 3" by simp
  have "found ''entry.sense.cit.quote'' (walk_children (p @ [t]) cs) = []"
    "found ''entry.sense.sense.def'' (walk_children (p @ [t]) cs) = []"
    using n by (simp_all add: found_deep)
  then show ?thesis
    using path Element by (simp add: collect_sense_walk(1) del: collect_sense.simps)
qed

subsection \<open>The branches of the entry extractor\<close>

text \<open>
  Below a path with two dots nothing matches any more: every longer path has at least
  three dots, and the five paths of \<open>collect\<close> have at most two.
\<close>

lemma collect_deep:
  "snd st \<noteq> [] \<Longrightarrow> 2 \<le> ndots (join ''.'' (snd st)) \<Longrightarrow> collect e st = st"
  "snd st \<noteq> [] \<Longrightarrow> 2 \<le> ndots (join ''.'' (snd st)) \<Longrightarrow> collect_children cs st = st"
proof (induction e st and cs st rule: collect_collect_children.induct)
  case (1 t a x y cs out prefix0)
  let ?path = "join ''.'' (prefix0 @ [t])"
  from "1.prems" have n: "3 \<le> ndots ?path"
    by (simp add: ndots_join_snoc)
  have ne: "?path \<noteq> ''entry.form.orth''" "?path \<noteq> ''entry.form.pron''"
    "?path \<noteq> ''entry.gramGrp.gen''" "?path \<noteq> ''entry.gramGrp.pos''"
    "?path \<noteq> ''entry.sense''"
    using n by (auto intro!: ndots_neq)
  have "collect_children cs (out, prefix0 @ [t]) = (out, prefix0 @ [t])"
    using "1.IH"(5)[OF refl refl ne] n by simp
  then show ?case
    using ne by (simp add: Let_def pop_def)
next
  case (2 st)
  show ?case by simp
next
  case (3 child rest st)
  then show ?case by simp
qed

lemma collect_children_deep:
  "ndots (join ''.'' (p @ [t])) = 2 \<Longrightarrow> collect_children cs (out, p @ [t]) = (out, p @ [t])"
  using collect_deep(2)[of "(out, p @ [t])" cs] by simp

lemma collect_senses_deep:
  "snd st \<noteq> [] \<Longrightarrow> 1 \<le> ndots (join ''.'' (snd st)) \<Longrightarrow>
     senses (fst (collect e st)) = senses (fst st)"
  "snd st \<noteq> [] \<Longrightarrow> 1 \<le> ndots (join ''.'' (snd st)) \<Longrightarrow>
     senses (fst (collect_children cs st)) = senses (fst st)"
proof (induction e st and cs st rule: collect_collect_children.induct)
  case (1 t a x y cs out prefix0)
  let ?prefix = "prefix0 @ [t]"
  let ?path = "join ''.'' ?prefix"
  from "1.prems" have n: "2 \<le> ndots ?path"
    by (simp add: ndots_join_snoc)
  then have d: "collect_children cs (o', ?prefix) = (o', ?prefix)" for o'
    using collect_deep(2)[of "(o', ?prefix)" cs] by simp
  have ne: "?path \<noteq> ''entry.sense''"
    using n by (auto intro!: ndots_neq simp: ndots_consts)
  show ?case
    using ne by (simp add: Let_def pop_def d split: option.splits)
next
  case (2 st)
  show ?case by simp
next
  case (3 child rest st)
  then show ?case by (simp add: collect_prefix)
qed

lemma collect_orth:
  assumes "join ''.'' (p @ [t]) = ''entry.form.orth''"
  shows "collect (Element t a x y cs) (out, p) =
           (case x of None \<Rightarrow> out | Some s \<Rightarrow> out\<lparr>orth := append_field (orth out) s\<rparr>, p)"
proof -
  have "ndots (join ''.'' (p @ [t])) = 2"
    by (simp add: assms)
  then show ?thesis
    using assms by (simp add: collect_children_deep pop_def)
qed

lemma collect_pron:
  assumes "join ''.'' (p @ [t]) = ''entry.form.pron''"
  shows "collect (Element t a x y cs) (out, p) =
           (case x of None \<Rightarrow> out | Some s \<Rightarrow> out\<lparr>pron := append_field (pron out) s\<rparr>, p)"
proof -
  have "ndots (join ''.'' (p @ [t])) = 2"
    by (simp add: assms)
  then show ?thesis
    using assms by (simp add: collect_children_deep pop_def)
qed

lemma collect_gen:
  assumes "join ''.'' (p @ [t]) = ''entry.gramGrp.gen''"
  shows "collect (Element t a x y cs) (out, p) = (out\<lparr>gen := append_field (gen out) x\<rparr>, p)"
proof -
  have "ndots (join ''.'' (p @ [t])) = 2"
    by (simp add: assms)
  then show ?thesis
    using assms by (simp add: collect_children_deep pop_def)
qed

lemma collect_pos:
  assumes "join ''.'' (p @ [t]) = ''entry.gramGrp.pos''"
  shows "collect (Element t a x y cs) (out, p) =
           (case x of None \<Rightarrow> out
            | Some s \<Rightarrow>
                (case pos out of None \<Rightarrow> out\<lparr>pos := Some [s]\<rparr>
                 | Some l \<Rightarrow> if s \<in> set l then out else out\<lparr>pos := Some (l @ [s])\<rparr>), p)"
proof -
  have "ndots (join ''.'' (p @ [t])) = 2"
    by (simp add: assms)
  then show ?thesis
    using assms by (cases x; cases "pos out") (simp_all add: collect_children_deep pop_def)
qed

lemma collect_sense_branch:
  assumes "join ''.'' (p @ [t]) = ''entry.sense''"
  shows "collect (Element t a x y cs) (out, p) =
           (out\<lparr>senses := append_field (senses out)
                   (fst (collect_sense (Element t a x y cs) (new_DictSense, p)))\<rparr>, p)"
proof -
  have "snd (collect_sense (Element t a x y cs) (new_DictSense, p)) = p"
    by (simp only: collect_sense_prefix snd_conv)
  then show ?thesis
    using assms by (simp add: pop_def split: prod.splits)
qed

lemma collect_other:
  assumes "join ''.'' (p @ [t]) \<notin> {''entry.form.orth'', ''entry.form.pron'',
     ''entry.gramGrp.gen'', ''entry.gramGrp.pos'', ''entry.sense''}"
  shows "collect (Element t a x y cs) (out, p) = (fst (collect_children cs (out, p @ [t])), p)"
proof -
  have "snd (collect_children cs (out, p @ [t])) = p @ [t]"
    by (simp only: collect_prefix snd_conv)
  then show ?thesis
    using assms by (cases "collect_children cs (out, p @ [t])") (simp add: pop_def)
qed

lemma pos_distinct_upd [simp]:
  "pos_distinct (e\<lparr>orth := v1\<rparr>) = pos_distinct e"
  "pos_distinct (e\<lparr>pron := v2\<rparr>) = pos_distinct e"
  "pos_distinct (e\<lparr>gen := v3\<rparr>) = pos_distinct e"
  "pos_distinct (e\<lparr>senses := v4\<rparr>) = pos_distinct e"
  by (simp_all add: pos_distinct_def)

lemma collect_pos_distinct:
  "pos_distinct (fst st) \<Longrightarrow> pos_distinct (fst (collect e st))"
  "pos_distinct (fst st) \<Longrightarrow> pos_distinct (fst (collect_children cs st))"
proof (induction e st and cs st rule: collect_collect_children.induct)
  case (1 t a x y cs out prefix0)
  let ?path = "join ''.'' (prefix0 @ [t])"
  from "1.prems" have d: "pos_distinct out" by simp
  consider "?path = ''entry.form.orth''" | "?path = ''entry.form.pron''"
    | "?path = ''entry.gramGrp.gen''" | "?path = ''entry.gramGrp.pos''"
    | "?path = ''entry.sense''"
    | "?path \<notin> {''entry.form.orth'', ''entry.form.pron'', ''entry.gramGrp.gen'',
         ''entry.gramGrp.pos'', ''entry.sense''}"
    by blast
  then show ?case
  proof cases
    case 1
    then show ?thesis using d by (cases x) (simp_all add: collect_orth del: collect.simps)
  next
    case 2
    then show ?thesis using d by (cases x) (simp_all add: collect_pron del: collect.simps)
  next
    case 3
    then show ?thesis using d by (simp add: collect_gen del: collect.simps)
  next
    case 4
    then show ?thesis using d
      by (cases x; cases "pos out") (simp_all add: collect_pos pos_distinct_def del: collect.simps)
  next
    case 5
    then show ?thesis using d by (simp add: collect_sense_branch del: collect.simps)
  next
    case 6
    then have "pos_distinct (fst (collect_children cs (out, prefix0 @ [t])))"
      using "1.IH"(5)[OF refl refl] d by simp
    then show ?thesis using 6 by (simp add: collect_other del: collect.simps)
  qed
next
  case (2 st)
  then show ?case by simp
next
  case (3 child rest st)
  then show ?case by simp
qed

lemma collect_child_senses:
  "senses (fst (collect c (out, [''entry'']))) =
     (if tag c = ''sense''
      then append_field (senses out) (fst (collect_sense c (new_DictSense, [''entry''])))
      else senses out)"
proof (cases c)
  case (Element t a x y cs)
  let ?path = "join ''.'' ([''entry''] @ [t])"
  have p: "?path = ''entry.'' @ t" by simp
  show ?thesis
  proof (cases "t = ''sense''")
    case True
    then have "?path = ''entry.sense''" by simp
    from collect_sense_branch[OF this] show ?thesis
      using Element True by (simp del: collect.simps collect_sense.simps)
  next
    case False
    then have ns: "?path \<noteq> ''entry.sense''" by simp
    have deep: "senses (fst (collect_children cs (o', [''entry''] @ [t]))) = senses o'" for o'
      using collect_senses_deep(2)[of "(o', [''entry''] @ [t])" cs] by simp
    consider "?path = ''entry.form.orth''" | "?path = ''entry.form.pron''"
      | "?path = ''entry.gramGrp.gen''" | "?path = ''entry.gramGrp.pos''"
      | "?path \<notin> {''entry.form.orth'', ''entry.form.pron'', ''entry.gramGrp.gen'',
           ''entry.gramGrp.pos'', ''entry.sense''}"
      using ns by blast
    then have "senses (fst (collect (Element t a x y cs) (out, [''entry'']))) = senses out"
    proof cases
      case 1
      from collect_orth[OF this] show ?thesis by (cases x) (simp_all del: collect.simps)
    next
      case 2
      from collect_pron[OF this] show ?thesis by (cases x) (simp_all del: collect.simps)
    next
      case 3
      from collect_gen[OF this] show ?thesis by (simp del: collect.simps)
    next
      case 4
      from collect_pos[OF this] show ?thesis
        by (cases x; cases "pos out") (simp_all del: collect.simps)
    next
      case 5
      from collect_other[OF this] show ?thesis using deep[of out] by (simp del: collect.simps)
    qed
    then show ?thesis using Element False by (simp del: collect.simps)
  qed
qed

lemma collect_children_senses:
  "senses (fst (collect_children cs (out, [''entry'']))) =
     extend_field (senses out)
       (map (\<lambda>c. fst (collect_sense c (new_DictSense, [''entry''])))
          (filter (\<lambda>c. tag c = ''sense'') cs))"
proof (induction cs arbitrary: out)
  case Nil
  show ?case by simp
next
  case (Cons c cs)
  obtain o' where o': "collect c (out, [''entry'']) = (o', [''entry''])"
    using collect_prefix(1)[of c "(out, [''entry''])"] by (cases "collect c (out, [''entry''])") simp
  have "senses o' = (if tag c = ''sense''
      then append_field (senses out) (fst (collect_sense c (new_DictSense, [''entry''])))
      else senses out)"
    using collect_child_senses[of c out] o' by simp
  then show ?case
    by (simp add: o' Cons.IH)
qed

lemma collect_entry_senses:
  assumes "tag e = ''entry''"
  shows "senses (fst (collect e (new_DictEntry, []))) =
     extend_field None
       (map (\<lambda>c. fst (collect_sense c (new_DictSense, [''entry''])))
          (filter (\<lambda>c. tag c = ''sense'') (children e)))"
proof (cases e)
  case (Element t a x y cs)
  with assms have t: "t = ''entry''" by simp
  have "join ''.'' ([] @ [t]) \<notin> {''entry.form.orth'', ''entry.form.pron'', ''entry.gramGrp.gen'',
           ''entry.gramGrp.pos'', ''entry.sense''}"
    by (simp add: t)
  from collect_other[OF this]
  show ?thesis
    using Element t collect_children_senses[of cs new_DictEntry]
    by (simp add: new_DictEntry_def del: collect.simps)
qed

subsection \<open>The example entry\<close>

text \<open>
  C1. Running \<open>collect\<close> on the entry
  \<^verbatim>\<open><entry><form><orth>cat</orth></form><gramGrp><pos>n</pos></gramGrp><sense><cit><quote>Example.</quote></cit><sense><def>A feline.</def></sense></sense></entry>\<close>
  with a fresh \<open>DictEntry\<close> and the empty prefix gives the orthography list
  \<open>[cat]\<close>, the part-of-speech list \<open>[n]\<close>, exactly one sense with the quotes
  \<open>[Example.]\<close> and the definitions \<open>[A feline.]\<close>, and neither pronunciation nor
  gender; the prefix is empty again.
\<close>

theorem collect_cat_entry:
  "collect cat_entry (new_DictEntry, []) =
     (\<lparr>orth = Some [''cat''], pron = None, gen = None, pos = Some [''n''],
       senses = Some [\<lparr>quotes = Some [Some ''Example.''],
                        defs = Some [Some ''A feline.'']\<rparr>]\<rparr>, [])"
  by (simp add: cat_entry_def new_DictEntry_def new_DictSense_def pop_def)

subsection \<open>One sense record for each top-level sense element\<close>

text \<open>
  C2. For an entry element, the senses list holds exactly one \<open>DictSense\<close> for
  each child tagged \<^verbatim>\<open>sense\<close>, in document order, and none for the sub-senses nested
  in them (the list is absent when there is no such child). The record of a sense
  element holds in \<open>quotes\<close> the text of every element of its subtree whose dotted
  path is exactly \<^verbatim>\<open>entry.sense.cit.quote\<close> and in \<open>defs\<close> the text of every element
  whose dotted path is exactly \<^verbatim>\<open>entry.sense.sense.def\<close>, in document order: the
  definitions of the sub-senses fold into the record of the top-level sense, because
  the paths are compared as whole strings.
\<close>

theorem one_sense_per_sense_element:
  assumes "tag e = ''entry''"
  shows "senses (fst (collect e (new_DictEntry, []))) =
           (let ss = filter (\<lambda>c. tag c = ''sense'') (children e)
            in if ss = [] then None
               else Some (map (\<lambda>s. fst (collect_sense s (new_DictSense, [''entry'']))) ss)) \<and>
         collect_sense s (new_DictSense, p) =
           (\<lparr>quotes = (let qs = found ''entry.sense.cit.quote'' (walk p s)
                        in if qs = [] then None else Some (map text_of qs)),
             defs = (let ds = found ''entry.sense.sense.def'' (walk p s)
                      in if ds = [] then None else Some (map text_of ds))\<rparr>, p)"
  using collect_entry_senses[OF assms] collect_sense_fresh[of s p]
  by (simp add: extend_field_None Let_def del: collect.simps collect_sense.simps)

theorem one_sense_per_sense_element_witness:
  "tag run_entry = ''entry'' \<and>
   senses (fst (collect run_entry (new_DictEntry, []))) =
     Some [\<lparr>quotes = Some [Some ''I run.''], defs = Some [Some ''move fast'', None]\<rparr>,
           \<lparr>quotes = Some [None], defs = None\<rparr>] \<and>
   fst (collect_sense (children run_entry ! 2) (new_DictSense, [''entry''])) =
     \<lparr>quotes = Some [Some ''I run.''], defs = Some [Some ''move fast'', None]\<rparr>"
proof -
  have h: "tag run_entry = ''entry''"
    by (simp add: run_entry_def)
  show ?thesis
    using h one_sense_per_sense_element[OF h, of "children run_entry ! 2" "[''entry'']"]
    by (simp add: run_entry_def new_DictSense_def pop_def found_def Let_def)
qed

subsection \<open>A missing text is kept for the gender only\<close>

text \<open>
  C3. An element without direct text at \<^verbatim>\<open>entry.form.orth\<close>, \<^verbatim>\<open>entry.form.pron\<close>
  or \<^verbatim>\<open>entry.gramGrp.pos\<close> leaves the entry as it was. An element at
  \<^verbatim>\<open>entry.gramGrp.gen\<close> puts its text, present or not, at the end of the gender list:
  the new list is the old one (the empty list when there was none) followed by that text,
  so after an element without text its last item is \<^verbatim>\<open>None\<close>.
\<close>

theorem missing_text_kept_only_for_gen:
  "(text_of e = None \<longrightarrow>
      join ''.'' (p @ [tag e]) \<in>
        {''entry.form.orth'', ''entry.form.pron'', ''entry.gramGrp.pos''} \<longrightarrow>
      collect e (out, p) = (out, p)) \<and>
   (join ''.'' (p @ [tag e]) = ''entry.gramGrp.gen'' \<longrightarrow>
      collect e (out, p) =
        (out\<lparr>gen := Some ((case gen out of None \<Rightarrow> [] | Some l \<Rightarrow> l) @ [text_of e])\<rparr>, p)) \<and>
   (text_of e = None \<longrightarrow> join ''.'' (p @ [tag e]) = ''entry.gramGrp.gen'' \<longrightarrow>
      gen (fst (collect e (out, p))) =
        Some ((case gen out of None \<Rightarrow> [] | Some l \<Rightarrow> l) @ [None]))"
proof -
  obtain t a x y cs where e: "e = Element t a x y cs"
    by (cases e)
  have skip: "collect e (out, p) = (out, p)"
    if "text_of e = None"
      and "join ''.'' (p @ [tag e]) \<in>
        {''entry.form.orth'', ''entry.form.pron'', ''entry.gramGrp.pos''}"
  proof -
    from that(1) e have x: "x = None" by simp
    from that(2) e consider "join ''.'' (p @ [t]) = ''entry.form.orth''"
      | "join ''.'' (p @ [t]) = ''entry.form.pron''"
      | "join ''.'' (p @ [t]) = ''entry.gramGrp.pos''"
      by auto
    then show ?thesis
    proof cases
      case 1
      from collect_orth[OF this] show ?thesis
        using e x by (simp del: collect.simps)
    next
      case 2
      from collect_pron[OF this] show ?thesis
        using e x by (simp del: collect.simps)
    next
      case 3
      from collect_pos[OF this] show ?thesis
        using e x by (simp del: collect.simps)
    qed
  qed
  have keep: "collect e (out, p) =
        (out\<lparr>gen := Some ((case gen out of None \<Rightarrow> [] | Some l \<Rightarrow> l) @ [text_of e])\<rparr>, p)"
    if "join ''.'' (p @ [tag e]) = ''entry.gramGrp.gen''"
  proof -
    from that e have "join ''.'' (p @ [t]) = ''entry.gramGrp.gen''" by simp
    from collect_gen[OF this] show ?thesis
      using e by (cases "gen out") (simp_all del: collect.simps)
  qed
  show ?thesis
    using skip keep by simp
qed

theorem missing_text_kept_only_for_gen_witness:
  "text_of (Element ''gen'' [] None None []) = None \<and>
   text_of (Element ''orth'' [] None None []) = None \<and>
   join ''.'' ([''entry'', ''gramGrp''] @ [tag (Element ''gen'' [] None None [])]) =
     ''entry.gramGrp.gen'' \<and>
   join ''.'' ([''entry'', ''form''] @ [tag (Element ''orth'' [] None None [])]) \<in>
     {''entry.form.orth'', ''entry.form.pron'', ''entry.gramGrp.pos''} \<and>
   collect (Element ''gen'' [] None None [])
       (new_DictEntry\<lparr>gen := Some [Some ''m'']\<rparr>, [''entry'', ''gramGrp'']) =
     (new_DictEntry\<lparr>gen := Some [Some ''m'', None]\<rparr>, [''entry'', ''gramGrp'']) \<and>
   collect (Element ''gen'' [] None None []) (new_DictEntry, [''entry'', ''gramGrp'']) =
     (new_DictEntry\<lparr>gen := Some [None]\<rparr>, [''entry'', ''gramGrp'']) \<and>
   collect (Element ''orth'' [] None None [])
       (new_DictEntry\<lparr>orth := Some [''cat'']\<rparr>, [''entry'', ''form'']) =
     (new_DictEntry\<lparr>orth := Some [''cat'']\<rparr>, [''entry'', ''form'']) \<and>
   fst (collect gen_entry (new_DictEntry, [])) = new_DictEntry\<lparr>gen := Some [Some ''m'', None]\<rparr>"
proof -
  have g: "text_of (Element ''gen'' [] None None []) = None"
    and o: "text_of (Element ''orth'' [] None None []) = None"
    by simp_all
  have pg: "join ''.'' ([''entry'', ''gramGrp''] @ [tag (Element ''gen'' [] None None [])]) =
      ''entry.gramGrp.gen''"
    and po: "join ''.'' ([''entry'', ''form''] @ [tag (Element ''orth'' [] None None [])]) \<in>
      {''entry.form.orth'', ''entry.form.pron'', ''entry.gramGrp.pos''}"
    by simp_all
  have w: "fst (collect gen_entry (new_DictEntry, [])) =
      new_DictEntry\<lparr>gen := Some [Some ''m'', None]\<rparr>"
    by (simp add: gen_entry_def new_DictEntry_def pop_def)
  show ?thesis
    using g o pg po w
      missing_text_kept_only_for_gen[of "Element ''gen'' [] None None []"
        "[''entry'', ''gramGrp'']" "new_DictEntry\<lparr>gen := Some [Some ''m'']\<rparr>"]
      missing_text_kept_only_for_gen[of "Element ''gen'' [] None None []"
        "[''entry'', ''gramGrp'']" new_DictEntry]
      missing_text_kept_only_for_gen[of "Element ''orth'' [] None None []"
        "[''entry'', ''form'']" "new_DictEntry\<lparr>orth := Some [''cat'']\<rparr>"]
    by (simp add: new_DictEntry_def)
qed

subsection \<open>No part of speech twice\<close>

text \<open>
  C4. The part-of-speech list of an extracted entry has no duplicates: an element at
  \<^verbatim>\<open>entry.gramGrp.pos\<close> appends its text only when it has a text (it is not
  \<^verbatim>\<open>None\<close>) and the list does not hold that text yet, and an entry with the same part
  of speech twice gets a list of one item.
\<close>

theorem pos_duplicate_free:
  "pos_distinct (fst (collect e (new_DictEntry, []))) \<and>
   (join ''.'' (p @ [t]) = ''entry.gramGrp.pos'' \<longrightarrow>
      collect (Element t a x y cs) (out, p) =
        (case x of None \<Rightarrow> out
         | Some s \<Rightarrow>
             (case pos out of None \<Rightarrow> out\<lparr>pos := Some [s]\<rparr>
              | Some l \<Rightarrow> if s \<in> set l then out else out\<lparr>pos := Some (l @ [s])\<rparr>), p)) \<and>
   pos (fst (collect
          (Element ''entry'' a0 x0 y0
             [Element ''gramGrp'' a1 x1 y1
                [Element ''pos'' a2 (Some s) y2 [], Element ''pos'' a3 (Some s) y3 []]])
          (new_DictEntry, []))) = Some [s]"
proof (intro conjI impI)
  have "pos_distinct (fst (new_DictEntry, []::string list))"
    by (simp add: pos_distinct_def new_DictEntry_def)
  then show "pos_distinct (fst (collect e (new_DictEntry, [])))"
    by (rule collect_pos_distinct(1))
next
  assume "join ''.'' (p @ [t]) = ''entry.gramGrp.pos''"
  from collect_pos[OF this, of a x y cs out]
  show "collect (Element t a x y cs) (out, p) =
        (case x of None \<Rightarrow> out
         | Some s \<Rightarrow>
             (case pos out of None \<Rightarrow> out\<lparr>pos := Some [s]\<rparr>
              | Some l \<Rightarrow> if s \<in> set l then out else out\<lparr>pos := Some (l @ [s])\<rparr>), p)"
    by (simp del: collect.simps)
next
  show "pos (fst (collect
          (Element ''entry'' a0 x0 y0
             [Element ''gramGrp'' a1 x1 y1
                [Element ''pos'' a2 (Some s) y2 [], Element ''pos'' a3 (Some s) y3 []]])
          (new_DictEntry, []))) = Some [s]"
    by (simp add: new_DictEntry_def pop_def)
qed

theorem pos_duplicate_free_witness:
  "pos_distinct (fst (collect run_entry (new_DictEntry, []))) \<and>
   join ''.'' ([''entry'', ''gramGrp''] @ [''pos'']) = ''entry.gramGrp.pos'' \<and>
   collect (Element ''pos'' [] (Some ''v'') None [])
       (new_DictEntry\<lparr>pos := Some [''n'', ''v'']\<rparr>, [''entry'', ''gramGrp'']) =
     (new_DictEntry\<lparr>pos := Some [''n'', ''v'']\<rparr>, [''entry'', ''gramGrp'']) \<and>
   pos (fst (collect run_entry (new_DictEntry, []))) = Some [''v'']"
proof -
  have h: "join ''.'' ([''entry'', ''gramGrp''] @ [''pos'']) = ''entry.gramGrp.pos''"
    by simp
  show ?thesis
    using h pos_duplicate_free[of run_entry "[''entry'', ''gramGrp'']" "''pos''" "[]"
        "Some ''v''" None "[]" "new_DictEntry\<lparr>pos := Some [''n'', ''v'']\<rparr>"
        "[]" None None "[]" None None "[]" "''v''" None "[]" None]
    by (simp add: new_DictEntry_def run_entry_def new_DictSense_def pop_def)
qed

subsection \<open>Quotes and definitions are appended unguarded\<close>

text \<open>
  C10. In the sense extractor the text of an element at \<^verbatim>\<open>entry.sense.cit.quote\<close>
  or \<^verbatim>\<open>entry.sense.sense.def\<close> is appended whatever it is. So when the \<open>i\<close>-th
  quote (or definition) of a sense subtree has no direct text, the \<open>i\<close>-th item of
  the quotes (or definitions) of the resulting sense is \<^verbatim>\<open>None\<close>.
\<close>

theorem sense_text_appended_unguarded:
  "(\<forall>i < length (found ''entry.sense.cit.quote'' (walk p s)).
      text_of (found ''entry.sense.cit.quote'' (walk p s) ! i) = None \<longrightarrow>
      (\<exists>l. quotes (fst (collect_sense s (new_DictSense, p))) = Some l \<and>
           length l = length (found ''entry.sense.cit.quote'' (walk p s)) \<and> l ! i = None)) \<and>
   (\<forall>j < length (found ''entry.sense.sense.def'' (walk p s)).
      text_of (found ''entry.sense.sense.def'' (walk p s) ! j) = None \<longrightarrow>
      (\<exists>l. defs (fst (collect_sense s (new_DictSense, p))) = Some l \<and>
           length l = length (found ''entry.sense.sense.def'' (walk p s)) \<and> l ! j = None)) \<and>
   (join ''.'' (p @ [tag e]) = ''entry.sense.cit.quote'' \<longrightarrow>
      collect_sense e (sense, p) =
        (sense\<lparr>quotes := append_field (quotes sense) (text_of e)\<rparr>, p)) \<and>
   (join ''.'' (p @ [tag e]) = ''entry.sense.sense.def'' \<longrightarrow>
      collect_sense e (sense, p) =
        (sense\<lparr>defs := append_field (defs sense) (text_of e)\<rparr>, p))"
proof (intro conjI allI impI)
  fix i
  assume "i < length (found ''entry.sense.cit.quote'' (walk p s))"
    and "text_of (found ''entry.sense.cit.quote'' (walk p s) ! i) = None"
  then show "\<exists>l. quotes (fst (collect_sense s (new_DictSense, p))) = Some l \<and>
           length l = length (found ''entry.sense.cit.quote'' (walk p s)) \<and> l ! i = None"
    by (auto simp: collect_sense_fresh Let_def simp del: collect_sense.simps)
next
  fix j
  assume "j < length (found ''entry.sense.sense.def'' (walk p s))"
    and "text_of (found ''entry.sense.sense.def'' (walk p s) ! j) = None"
  then show "\<exists>l. defs (fst (collect_sense s (new_DictSense, p))) = Some l \<and>
           length l = length (found ''entry.sense.sense.def'' (walk p s)) \<and> l ! j = None"
    by (auto simp: collect_sense_fresh Let_def simp del: collect_sense.simps)
next
  assume "join ''.'' (p @ [tag e]) = ''entry.sense.cit.quote''"
  then show "collect_sense e (sense, p) =
        (sense\<lparr>quotes := append_field (quotes sense) (text_of e)\<rparr>, p)"
    by (rule collect_sense_quote)
next
  assume "join ''.'' (p @ [tag e]) = ''entry.sense.sense.def''"
  then show "collect_sense e (sense, p) =
        (sense\<lparr>defs := append_field (defs sense) (text_of e)\<rparr>, p)"
    by (rule collect_sense_def)
qed

theorem sense_text_appended_unguarded_witness:
  "1 < length (found ''entry.sense.cit.quote'' (walk [''entry''] textless_sense)) \<and>
   text_of (found ''entry.sense.cit.quote'' (walk [''entry''] textless_sense) ! 1) = None \<and>
   0 < length (found ''entry.sense.sense.def'' (walk [''entry''] textless_sense)) \<and>
   text_of (found ''entry.sense.sense.def'' (walk [''entry''] textless_sense) ! 0) = None \<and>
   fst (collect_sense textless_sense (new_DictSense, [''entry''])) =
     \<lparr>quotes = Some [Some ''first'', None], defs = Some [None]\<rparr> \<and>
   join ''.'' ([''entry'', ''sense'', ''cit''] @ [tag (Element ''quote'' [] None None [])]) =
     ''entry.sense.cit.quote'' \<and>
   collect_sense (Element ''quote'' [] None None [])
       (\<lparr>quotes = Some [Some ''first''], defs = None\<rparr>, [''entry'', ''sense'', ''cit'']) =
     (\<lparr>quotes = Some [Some ''first'', None], defs = None\<rparr>, [''entry'', ''sense'', ''cit''])"
proof -
  have w: "found ''entry.sense.cit.quote'' (walk [''entry''] textless_sense) =
      [Element ''quote'' [] (Some ''first'') None [], Element ''quote'' [] None None []]"
    "found ''entry.sense.sense.def'' (walk [''entry''] textless_sense) =
      [Element ''def'' [] None None []]"
    by (simp_all add: textless_sense_def)
  have h: "join ''.'' ([''entry'', ''sense'', ''cit''] @ [tag (Element ''quote'' [] None None [])]) =
     ''entry.sense.cit.quote''"
    by simp
  have c: "fst (collect_sense textless_sense (new_DictSense, [''entry''])) =
     \<lparr>quotes = Some [Some ''first'', None], defs = Some [None]\<rparr>"
    by (simp add: textless_sense_def new_DictSense_def pop_def)
  show ?thesis
    using w h c
      sense_text_appended_unguarded[of "[''entry'']" textless_sense textless_sense new_DictSense]
      sense_text_appended_unguarded[of "[''entry'', ''sense'', ''cit'']"
        "Element ''quote'' [] None None []" "Element ''quote'' [] None None []"
        "\<lparr>quotes = Some [Some ''first''], defs = None\<rparr>"]
    by (simp add: pop_def)
qed

subsection \<open>The headword index\<close>

lemma merge_orths_got:
  "got (merge_orths os e m) k = got m k @ map (\<lambda>_. e) (filter (\<lambda>form. form = k) os)"
  by (induction os arbitrary: m) (auto simp: got_def split: option.splits)

lemma merge_orths_no_empty:
  "no_empty_bucket m \<Longrightarrow> no_empty_bucket (merge_orths os e m)"
  by (induction os arbitrary: m) (auto simp: no_empty_bucket_def split: option.splits)

lemma merge_entry_got:
  "got (merge_entry e m) k =
     got m k @ (case orth e of None \<Rightarrow> [] | Some os \<Rightarrow> map (\<lambda>_. e) (filter (\<lambda>form. form = k) os))"
  by (simp add: merge_entry_def merge_orths_got split: option.splits)

lemma merge_entry_no_empty:
  "no_empty_bucket m \<Longrightarrow> no_empty_bucket (merge_entry e m)"
  by (simp add: merge_entry_def merge_orths_no_empty split: option.splits)

lemma aggregate_got: "got (aggregate es m) k = got m k @ bucket k es"
  by (induction es arbitrary: m) (simp_all add: bucket_def merge_entry_got)

lemma aggregate_no_empty: "no_empty_bucket m \<Longrightarrow> no_empty_bucket (aggregate es m)"
  by (induction es arbitrary: m) (simp_all add: merge_entry_no_empty)

lemma aggregate_bucket:
  "aggregate es Map.empty k = (if bucket k es = [] then None else Some (bucket k es))"
proof -
  have g: "got (aggregate es Map.empty) k = bucket k es"
    by (simp add: aggregate_got) (simp add: got_def)
  have "no_empty_bucket (aggregate es Map.empty)"
    by (rule aggregate_no_empty) (simp add: no_empty_bucket_def)
  then have "aggregate es Map.empty k \<noteq> Some []"
    by (simp add: no_empty_bucket_def)
  with g show ?thesis
    by (cases "aggregate es Map.empty k") (auto simp: got_def)
qed

lemma index_body_aggregate:
  "index_body els m =
     aggregate (map (\<lambda>el. fst (collect el (new_DictEntry, [])))
                  (filter (\<lambda>el. tag el = ''entry'') els)) m"
  by (induction els arbitrary: m) (simp_all del: collect.simps)

lemma bucket_append: "bucket k (xs @ ys) = bucket k xs @ bucket k ys"
  by (simp add: bucket_def)

lemma bucket_declared:
  assumes "orth e = Some os" and "k \<in> set os"
  shows "\<exists>n. bucket k [e] = e # replicate n e"
proof -
  from assms(2) obtain f fs where "filter (\<lambda>form. form = k) os = f # fs"
    by (cases "filter (\<lambda>form. form = k) os") (auto simp: filter_empty_conv)
  then have "bucket k [e] = e # replicate (length fs) e"
    using assms(1) by (simp add: bucket_def map_replicate_const)
  then show ?thesis ..
qed

lemma bucket_orth: "e \<in> set (bucket k es) \<Longrightarrow> \<exists>os. orth e = Some os \<and> k \<in> set os"
proof -
  assume "e \<in> set (bucket k es)"
  then obtain e' where e': "e' \<in> set es"
    and m: "e \<in> set (case orth e' of None \<Rightarrow> []
                       | Some os \<Rightarrow> map (\<lambda>_. e') (filter (\<lambda>form. form = k) os))"
    by (auto simp: bucket_def)
  show ?thesis
  proof (cases "orth e'")
    case None
    with m show ?thesis by simp
  next
    case (Some os)
    with m have "e = e'" and "k \<in> set os" by auto
    with Some show ?thesis by simp
  qed
qed

text \<open>
  C9. An entry without orthography list is in no bucket of the index. Two entries that
  both declare a form are both in the bucket of that form, the one met first before the
  other. More exactly, the bucket of a form holds the entries that declare it in the
  order of the sequence (an entry once for each time it lists the form) and a form that
  no entry declares has no bucket; and the loop of the main program over the children
  of the body builds the index of the entries extracted from the children tagged
  \<^verbatim>\<open>entry\<close>, in document order.
\<close>

theorem headword_index_buckets:
  "(orth e = None \<longrightarrow> (\<forall>k b. aggregate es Map.empty k = Some b \<longrightarrow> e \<notin> set b)) \<and>
   (orth e1 = Some os1 \<and> k \<in> set os1 \<and> orth e2 = Some os2 \<and> k \<in> set os2 \<longrightarrow>
      (\<exists>as bs cs. aggregate (xs @ [e1] @ ys @ [e2] @ zs) Map.empty k =
         Some (as @ [e1] @ bs @ [e2] @ cs))) \<and>
   aggregate es Map.empty k = (if bucket k es = [] then None else Some (bucket k es)) \<and>
   index_body els Map.empty =
     aggregate (map (\<lambda>el. fst (collect el (new_DictEntry, [])))
                  (filter (\<lambda>el. tag el = ''entry'') els)) Map.empty"
proof (intro conjI impI allI)
  fix k b
  assume "orth e = None" and "aggregate es Map.empty k = Some b"
  then have "b = bucket k es"
    by (simp add: aggregate_bucket split: if_splits)
  then show "e \<notin> set b"
    using bucket_orth[of e k es] \<open>orth e = None\<close> by auto
next
  assume a: "orth e1 = Some os1 \<and> k \<in> set os1 \<and> orth e2 = Some os2 \<and> k \<in> set os2"
  then obtain n1 n2 where n1: "bucket k [e1] = e1 # replicate n1 e1"
    and n2: "bucket k [e2] = e2 # replicate n2 e2"
    using bucket_declared[of e1 os1 k] bucket_declared[of e2 os2 k] by auto
  let ?l = "bucket k (xs @ [e1] @ ys @ [e2] @ zs)"
  have l: "?l = bucket k xs @ [e1] @ (replicate n1 e1 @ bucket k ys) @ [e2] @
      (replicate n2 e2 @ bucket k zs)"
    by (simp only: bucket_append n1 n2) simp
  then have "?l \<noteq> []" by simp
  then have "aggregate (xs @ [e1] @ ys @ [e2] @ zs) Map.empty k = Some ?l"
    by (simp only: aggregate_bucket if_False)
  with l show "\<exists>as bs cs. aggregate (xs @ [e1] @ ys @ [e2] @ zs) Map.empty k =
         Some (as @ [e1] @ bs @ [e2] @ cs)"
    by metis
next
  show "aggregate es Map.empty k = (if bucket k es = [] then None else Some (bucket k es))"
    by (rule aggregate_bucket)
next
  show "index_body els Map.empty =
     aggregate (map (\<lambda>el. fst (collect el (new_DictEntry, [])))
                  (filter (\<lambda>el. tag el = ''entry'') els)) Map.empty"
    by (rule index_body_aggregate)
qed

theorem headword_index_buckets_witness:
  "orth no_headword = None \<and>
   aggregate [run_verb, no_headword, run_noun] Map.empty ''run'' = Some [run_verb, run_noun] \<and>
   aggregate [run_verb, no_headword, run_noun] Map.empty ''runs'' = Some [run_noun] \<and>
   no_headword \<notin> set [run_verb, run_noun] \<and> no_headword \<notin> set [run_noun] \<and>
   orth run_verb = Some [''run''] \<and> ''run'' \<in> set [''run''] \<and>
   orth run_noun = Some [''run'', ''runs''] \<and> ''run'' \<in> set [''run'', ''runs''] \<and>
   (\<exists>as bs cs. aggregate ([] @ [run_verb] @ [no_headword] @ [run_noun] @ []) Map.empty ''run'' =
      Some (as @ [run_verb] @ bs @ [run_noun] @ cs))"
proof -
  have o: "orth no_headword = None"
    by (simp add: no_headword_def new_DictEntry_def)
  have d: "orth run_verb = Some [''run''] \<and> ''run'' \<in> set [''run''] \<and>
      orth run_noun = Some [''run'', ''runs''] \<and> ''run'' \<in> set [''run'', ''runs'']"
    by (simp add: run_verb_def run_noun_def new_DictEntry_def)
  have r: "aggregate [run_verb, no_headword, run_noun] Map.empty ''run'' =
      Some [run_verb, run_noun]"
    "aggregate [run_verb, no_headword, run_noun] Map.empty ''runs'' = Some [run_noun]"
    by (simp_all add: merge_entry_def run_verb_def run_noun_def no_headword_def
        new_DictEntry_def)
  have n: "no_headword \<notin> set [run_verb, run_noun] \<and> no_headword \<notin> set [run_noun]"
    by (simp add: run_verb_def run_noun_def no_headword_def new_DictEntry_def)
  show ?thesis
    using o d r n
      headword_index_buckets[of no_headword "[run_verb, no_headword, run_noun]" run_verb
        "[''run'']" "''run''" run_noun "[''run'', ''runs'']" "[]" "[no_headword]" "[]" "[]"]
    by blast
qed

subsection \<open>Tags and the output stream through the normaliser\<close>

lemma remove_namespace_children [simp]: "children (fst (remove_namespace e err)) = children e"
  by (cases e) simp

lemma remove_namespace_other:
  "\<not> startswith (tag e) tei_ns \<Longrightarrow> remove_namespace e err = (e, err @ [error_line (tag e)])"
  by (cases e) (simp add: error_line_def)

lemma remove_namespace_tei:
  "startswith (tag e) tei_ns \<Longrightarrow>
     remove_namespace e err =
       (Element (drop (length tei_ns) (tag e)) (attrib e) (text_of e) (tail e) (children e), err)"
  by (cases e) simp

lemma tag_set_children [simp]: "tag (set_children e cs) = tag e"
  by (cases e) simp

lemma children_set_children [simp]: "children (set_children e cs) = cs"
  by (cases e) simp

lemma handle_includes_tag: "handle_includes fs path e = Inr e' \<Longrightarrow> tag e' = tag e"
  by (auto simp: handle_includes_def split: sum.splits)

lemma handle_super_entries_tag: "handle_super_entries e = Inr e' \<Longrightarrow> tag e' = tag e"
  by (auto simp: handle_super_entries_def split: sum.splits)

lemma for_each_stderr:
  assumes "\<And>c l c' l'. c \<in> set cs \<Longrightarrow> f c l = Inr (c', l') \<Longrightarrow> \<exists>more. l' = l @ more"
    and "for_each f cs err = Inr (cs', err')"
  shows "\<exists>more. err' = err @ more"
  using assms
proof (induction cs arbitrary: err cs' err')
  case Nil
  then show ?case by simp
next
  case (Cons c cs)
  from Cons.prems(2) obtain c1 l1 cs1 where
    c: "f c err = Inr (c1, l1)" and r: "for_each f cs l1 = Inr (cs1, err')"
    by (auto split: sum.splits)
  from Cons.prems(1)[OF _ c] obtain m1 where m1: "l1 = err @ m1" by auto
  have "\<exists>more. err' = l1 @ more"
  proof (rule Cons.IH[OF _ r])
    fix d l d' l'
    assume "d \<in> set cs" and "f d l = Inr (d', l')"
    then show "\<exists>more. l' = l @ more"
      using Cons.prems(1)[of d l d' l'] by simp
  qed
  then obtain m2 where "err' = l1 @ m2" by auto
  with m1 show ?case by simp
qed

lemma preprocess_result:
  "preprocess limit fs path e err = Inr (e', err') \<Longrightarrow>
     tag e' = tag (fst (remove_namespace e err)) \<and>
     (\<exists>more. err' = snd (remove_namespace e err) @ more)"
proof (induction limit arbitrary: e err e' err')
  case 0
  then show ?case by simp
next
  case (Suc limit)
  obtain e1 l1 where rn: "remove_namespace e err = (e1, l1)"
    by (cases "remove_namespace e err")
  from Suc.prems rn obtain e2 e3 cs l2 where
    e2: "(if tag e1 = ''body'' \<and> findall xi_include e1 \<noteq> []
          then handle_includes fs path e1 else Inr e1) = Inr e2"
    and e3: "(if tag e2 = ''body'' \<and> findall tei_superEntry e2 \<noteq> []
          then handle_super_entries e2 else Inr e2) = Inr e3"
    and fe: "for_each (\<lambda>child e. preprocess limit fs path child e) (children e3) l1 =
          Inr (cs, l2)"
    and res: "e' = set_children e3 cs" "err' = l2"
    by (auto split: sum.splits)
  have t2: "tag e2 = tag e1"
    using e2 by (auto split: if_splits dest: handle_includes_tag)
  have t3: "tag e3 = tag e2"
    using e3 by (auto split: if_splits dest: handle_super_entries_tag)
  have grow: "\<exists>more. l' = l @ more" if "preprocess limit fs path c l = Inr (c', l')" for c l c' l'
  proof -
    from Suc.IH[OF that] obtain more where m: "l' = snd (remove_namespace c l) @ more"
      by auto
    show ?thesis
      by (cases c) (use m in \<open>auto split: if_splits\<close>)
  qed
  from for_each_stderr[OF _ fe] grow obtain more where "l2 = l1 @ more"
    by blast
  then show ?case
    using rn res t2 t3 by simp
qed

subsection \<open>A tag outside the TEI namespace is reported\<close>

text \<open>
  C8, as the specification states it, fails: it says that a tag without the TEI
  namespace is reported if and only if it is not a bare name. The tag \<^verbatim>\<open>entry\<close> does
  not carry the TEI namespace and is a bare name, and \<open>remove_namespace\<close> reports it.
\<close>

theorem bare_tag_reported_counterexample:
  "\<not> startswith (tag bare_entry) tei_ns \<and> bare_name (tag bare_entry) \<and>
   remove_namespace bare_entry [] = (bare_entry, [''ERROR: entry\<newline>''])"
  by (simp add: bare_entry_def startswith_def tei_ns_def bare_name_def)

text \<open>
  C8, amended. For every element whose tag does not start with the TEI namespace,
  bare name or not, \<open>remove_namespace\<close> writes one error line and returns the element
  as it was. The error is not fatal and processing continues: \<open>preprocess\<close> goes on
  to the children with the line written (shown for a tag other than \<^verbatim>\<open>body\<close>, where
  no handler steps in between), and whenever \<open>preprocess\<close> returns, the element has
  kept its tag and the output starts with what was there before, then the line.
\<close>

theorem unrecognised_tag_reported:
  assumes "\<not> startswith (tag e) tei_ns"
  shows "remove_namespace e err = (e, err @ [''ERROR: '' @ tag e @ ''\<newline>'']) \<and>
         (tag e \<noteq> ''body'' \<longrightarrow>
            preprocess (Suc limit) fs path e err =
              (case for_each (\<lambda>child l. preprocess limit fs path child l) (children e)
                      (err @ [''ERROR: '' @ tag e @ ''\<newline>'']) of
                 Inl x \<Rightarrow> Inl x
               | Inr (cs, err2) \<Rightarrow> Inr (set_children e cs, err2))) \<and>
         (preprocess limit fs path e err = Inr (e', err') \<longrightarrow>
            tag e' = tag e \<and> (\<exists>more. err' = err @ [''ERROR: '' @ tag e @ ''\<newline>''] @ more))"
proof (intro conjI impI)
  show rn: "remove_namespace e err = (e, err @ [''ERROR: '' @ tag e @ ''\<newline>''])"
    using remove_namespace_other[OF assms] by (simp add: error_line_def)
  {
    assume "tag e \<noteq> ''body''"
    then show "preprocess (Suc limit) fs path e err =
              (case for_each (\<lambda>child l. preprocess limit fs path child l) (children e)
                      (err @ [''ERROR: '' @ tag e @ ''\<newline>'']) of
                 Inl x \<Rightarrow> Inl x
               | Inr (cs, err2) \<Rightarrow> Inr (set_children e cs, err2))"
      by (simp add: rn del: remove_namespace.simps)
  }
  {
    assume "preprocess limit fs path e err = Inr (e', err')"
    from preprocess_result[OF this]
    show "tag e' = tag e" and "\<exists>more. err' = err @ [''ERROR: '' @ tag e @ ''\<newline>''] @ more"
      by (simp_all add: rn del: remove_namespace.simps)
  }
qed

theorem unrecognised_tag_reported_witness:
  "\<not> startswith (tag bare_entry) tei_ns \<and> tag bare_entry \<noteq> ''body'' \<and>
   remove_namespace bare_entry [] = (bare_entry, [''ERROR: entry\<newline>'']) \<and>
   preprocess 2 (\<lambda>p. None) ''temp'' bare_entry [] =
     Inr (Element ''entry'' [] None None [Element ''form'' [] None None []],
          [''ERROR: entry\<newline>''])"
proof -
  have h: "\<not> startswith (tag bare_entry) tei_ns"
    by (simp add: bare_entry_def startswith_def tei_ns_def)
  have p: "preprocess 2 (\<lambda>p. None) ''temp'' bare_entry [] =
     Inr (Element ''entry'' [] None None [Element ''form'' [] None None []],
          [''ERROR: entry\<newline>''])"
    by (simp add: numeral_2_eq_2 bare_entry_def startswith_def tei_ns_def)
  show ?thesis
    using h p
      unrecognised_tag_reported[OF h, where err = "[]" and limit = 1 and fs = "\<lambda>p. None"
        and path = "''temp''"]
      unrecognised_tag_reported[OF h, where err = "[]" and limit = 2 and fs = "\<lambda>p. None"
        and path = "''temp''"
        and e' = "Element ''entry'' [] None None [Element ''form'' [] None None []]"
        and err' = "[''ERROR: entry\<newline>'']"]
    by (simp add: bare_entry_def)
qed

subsection \<open>Documents without inclusion and without superEntry\<close>

lemma iter_no_tag:
  "name \<notin> set (tags e) \<Longrightarrow> filter (\<lambda>(loc, d). tag d = name) (iter loc e) = []"
  "name \<notin> set (tags_children cs) \<Longrightarrow>
     filter (\<lambda>(loc, d). tag d = name) (iter_children loc i cs) = []"
  by (induction loc e and loc i cs rule: iter_iter_children.induct) auto

lemma tags_children_of: "tags e = tag e # tags_children (children e)"
  by (cases e) simp

lemma findall_no_tag: "name \<notin> set (tags_children (children e)) \<Longrightarrow> findall name e = []"
  by (simp add: findall_def iter_no_tag)

lemma findall_remove_namespace [simp]:
  "findall name (fst (remove_namespace e err)) = findall name e"
  by (simp add: findall_def del: remove_namespace.simps)

lemma for_each_strip:
  assumes "\<And>c l. c \<in> set cs \<Longrightarrow> f c l = Inr (strip_namespaces c l)"
  shows "for_each f cs err = Inr (strip_children cs err)"
  using assms
proof (induction cs arbitrary: err)
  case Nil
  show ?case by simp
next
  case (Cons c cs)
  have "f c err = Inr (strip_namespaces c err)"
    by (rule Cons.prems) simp
  moreover have "for_each f cs l = Inr (strip_children cs l)" for l
    by (rule Cons.IH) (simp add: Cons.prems)
  ultimately show ?case
    by (simp split: prod.splits)
qed

lemma strip_namespaces_unfold:
  "strip_namespaces e err =
     (case strip_children (children e) (snd (remove_namespace e err)) of
        (cs', err2) \<Rightarrow> (set_children (fst (remove_namespace e err)) cs', err2))"
  by (cases e) (simp split: prod.splits)

lemma height_children_le:
  "c \<in> set cs \<Longrightarrow> height c \<le> height_children cs"
  by (induction cs) auto

lemma tags_children_mem:
  "c \<in> set cs \<Longrightarrow> set (tags c) \<subseteq> set (tags_children cs)"
  by (induction cs) auto

lemma preprocess_plain:
  "xi_include \<notin> set (tags e) \<Longrightarrow> tei_superEntry \<notin> set (tags e) \<Longrightarrow> height e \<le> limit \<Longrightarrow>
     preprocess limit fs path e err = Inr (strip_namespaces e err)"
proof (induction limit arbitrary: e err)
  case 0
  then show ?case by (cases e) simp
next
  case (Suc limit)
  obtain e1 l1 where rn: "remove_namespace e err = (e1, l1)"
    by (cases "remove_namespace e err")
  have ch: "children e1 = children e"
    using remove_namespace_children[of e err] rn by simp
  have ni: "xi_include \<notin> set (tags_children (children e))"
    and ns: "tei_superEntry \<notin> set (tags_children (children e))"
    and h: "height_children (children e) \<le> limit"
    using Suc.prems by (cases e; simp)+
  have f1: "findall xi_include e1 = []" and f2: "findall tei_superEntry e1 = []"
    using ni ns ch by (simp_all add: findall_no_tag)
  have kids: "preprocess limit fs path c l = Inr (strip_namespaces c l)"
    if "c \<in> set (children e)" for c l
  proof (rule Suc.IH)
    show "xi_include \<notin> set (tags c)" "tei_superEntry \<notin> set (tags c)"
      using tags_children_mem[OF that] ni ns by auto
    show "height c \<le> limit"
      using height_children_le[OF that] h by simp
  qed
  have "for_each (\<lambda>child l. preprocess limit fs path child l) (children e) l1 =
      Inr (strip_children (children e) l1)"
    by (rule for_each_strip) (rule kids)
  then show ?case
    using rn f1 f2 ch
    by (simp add: strip_namespaces_unfold[of e err] split: prod.splits
        del: remove_namespace.simps)
qed

lemma brace_in_consts:
  "CHR ''{'' \<in> set tei_ns" "CHR ''{'' \<in> set xi_include" "CHR ''{'' \<in> set tei_superEntry"
  "1 \<le> length tei_ns"
  by (simp_all add: tei_ns_def xi_include_def tei_superEntry_def)

lemma strip_tag_no_brace:
  assumes "qname t" and "startswith t tei_ns"
  shows "CHR ''{'' \<notin> set (strip_tag t)"
proof -
  have "set (drop (length tei_ns) t) \<subseteq> set (drop 1 t)"
    by (rule set_drop_subset_set_drop) (rule brace_in_consts(4))
  then show ?thesis
    using assms by (auto simp: strip_tag_def qname_def)
qed

lemma strip_tag_not_tei:
  assumes "qname t"
  shows "\<not> startswith (strip_tag t) tei_ns"
proof (cases "startswith t tei_ns")
  case True
  from strip_tag_no_brace[OF assms True] have "CHR ''{'' \<notin> set (take (length tei_ns) (strip_tag t))"
    using set_take_subset[of "length tei_ns" "strip_tag t"] by blast
  then show ?thesis
    using brace_in_consts(1) by (auto simp: startswith_def)
next
  case False
  then show ?thesis by (simp add: strip_tag_def)
qed

lemma strip_tag_not_const:
  assumes "qname t" and "t \<noteq> c" and "CHR ''{'' \<in> set c"
  shows "strip_tag t \<noteq> c"
proof (cases "startswith t tei_ns")
  case True
  from strip_tag_no_brace[OF assms(1) True] assms(3) show ?thesis by auto
next
  case False
  then show ?thesis using assms(2) by (simp add: strip_tag_def)
qed

lemma tag_remove_namespace: "tag (fst (remove_namespace e err)) = strip_tag (tag e)"
  by (cases e) (simp add: strip_tag_def)

lemma strip_tags:
  "tags (fst (strip_namespaces e err)) = map strip_tag (tags e)"
  "tags_children (fst (strip_children cs err)) = map strip_tag (tags_children cs)"
  by (induction e err and cs err rule: strip_namespaces_strip_children.induct)
     (auto simp: strip_tag_def split: prod.splits)

lemma strip_height:
  "height (fst (strip_namespaces e err)) = height e"
  "height_children (fst (strip_children cs err)) = height_children cs"
  by (induction e err and cs err rule: strip_namespaces_strip_children.induct)
     (auto split: prod.splits)

lemma strip_fixed:
  "\<forall>t \<in> set (tags e). \<not> startswith t tei_ns \<Longrightarrow> fst (strip_namespaces e err) = e"
  "\<forall>t \<in> set (tags_children cs). \<not> startswith t tei_ns \<Longrightarrow> fst (strip_children cs err) = cs"
  by (induction e err and cs err rule: strip_namespaces_strip_children.induct)
     (auto split: prod.splits)

text \<open>
  C7. For a tree in which no element is an XInclude directive or a TEI
  \<^verbatim>\<open>superEntry\<close>, and which is not nested deeper than the recursion limit allows,
  \<open>preprocess\<close> returns, and what it returns (the tree and the output stream) is what
  namespace stripping alone gives. For a parsed document (every tag a name the parser
  can produce) a second run of \<open>preprocess\<close> on the resulting tree returns that tree
  again: on trees, normalisation is idempotent. (The second run writes an error line
  for every element, since no tag carries the namespace any more.)
\<close>

theorem preprocess_plain_document:
  assumes "xi_include \<notin> set (tags e)" and "tei_superEntry \<notin> set (tags e)"
    and "height e \<le> limit"
  shows "preprocess limit fs path e err = Inr (strip_namespaces e err) \<and>
         (list_all qname (tags e) \<longrightarrow>
            (\<exists>err2. preprocess limit fs path (fst (strip_namespaces e err)) err1 =
                      Inr (fst (strip_namespaces e err), err2)))"
proof (intro conjI impI)
  show "preprocess limit fs path e err = Inr (strip_namespaces e err)"
    using assms by (rule preprocess_plain)
next
  assume q: "list_all qname (tags e)"
  let ?t = "fst (strip_namespaces e err)"
  have tg: "tags ?t = map strip_tag (tags e)"
    by (rule strip_tags)
  have q': "qname t" if "t \<in> set (tags e)" for t
    using q that by (simp add: list_all_iff)
  have i: "xi_include \<notin> set (tags ?t)"
    using assms(1) q' strip_tag_not_const[OF _ _ brace_in_consts(2)] unfolding tg
    by (metis (no_types, lifting) imageE list.set_map)
  have s: "tei_superEntry \<notin> set (tags ?t)"
    using assms(2) q' strip_tag_not_const[OF _ _ brace_in_consts(3)] unfolding tg
    by (metis (no_types, lifting) imageE list.set_map)
  have h: "height ?t \<le> limit"
    using assms(3) by (simp add: strip_height)
  have n: "\<forall>t \<in> set (tags ?t). \<not> startswith t tei_ns"
    using q' strip_tag_not_tei by (auto simp: tg)
  have "preprocess limit fs path ?t err1 = Inr (strip_namespaces ?t err1)"
    using i s h by (rule preprocess_plain)
  moreover have "fst (strip_namespaces ?t err1) = ?t"
    using n by (rule strip_fixed)
  ultimately have "preprocess limit fs path ?t err1 = Inr (?t, snd (strip_namespaces ?t err1))"
    by (metis prod.collapse)
  then show "\<exists>err2. preprocess limit fs path ?t err1 = Inr (?t, err2)" ..
qed

theorem preprocess_plain_document_witness:
  "xi_include \<notin> set (tags plain_body) \<and> tei_superEntry \<notin> set (tags plain_body) \<and>
   height plain_body \<le> 4 \<and> list_all qname (tags plain_body) \<and>
   strip_namespaces plain_body [] = (plain_body_stripped, [''ERROR: note\<newline>'']) \<and>
   preprocess 4 (\<lambda>p. None) ''temp'' plain_body [] =
     Inr (plain_body_stripped, [''ERROR: note\<newline>'']) \<and>
   (\<exists>err2. preprocess 4 (\<lambda>p. None) ''temp'' plain_body_stripped [''ERROR: note\<newline>''] =
      Inr (plain_body_stripped, err2))"
proof -
  have a: "xi_include \<notin> set (tags plain_body)" "tei_superEntry \<notin> set (tags plain_body)"
    by (simp_all add: plain_body_def xi_include_def tei_superEntry_def)
  have h: "height plain_body \<le> 4"
    by (simp add: plain_body_def)
  have q: "list_all qname (tags plain_body)"
    by (simp add: plain_body_def qname_def)
  have s: "strip_namespaces plain_body [] = (plain_body_stripped, [''ERROR: note\<newline>''])"
    by (simp add: plain_body_def plain_body_stripped_def startswith_def tei_ns_def)
  show ?thesis
    using a h q s
      preprocess_plain_document[OF a h, where fs = "\<lambda>p. None" and path = "''temp''"
        and err = "[]" and ?err1.0 = "[''ERROR: note\<newline>'']"]
    by simp
qed

subsection \<open>Flattening a superEntry\<close>

lemma iter_children_append:
  "iter_children loc i (xs @ ys) = iter_children loc i xs @ iter_children loc (i + length xs) ys"
  by (induction xs arbitrary: i) simp_all

lemma located_append:
  "located loc i (xs @ ys) = located loc i xs @ located loc (i + length xs) ys"
  by (induction xs arbitrary: i) simp_all

lemma map_snd_located [simp]: "map snd (located loc i cs) = cs"
  by (induction cs arbitrary: i) simp_all

lemma located_fst:
  "w \<in> set (located loc i cs) \<Longrightarrow> \<exists>j. fst w = loc @ [j] \<and> i \<le> j \<and> j < i + length cs"
proof (induction cs arbitrary: i)
  case Nil
  then show ?case by simp
next
  case (Cons c cs)
  from Cons.prems consider "w = (loc @ [i], c)" | "w \<in> set (located loc (Suc i) cs)"
    by auto
  then show ?case
  proof cases
    case 1
    then show ?thesis by auto
  next
    case 2
    from Cons.IH[OF this] show ?thesis by auto
  qed
qed

lemma remove_child_here:
  "loc \<notin> fst ` set xs \<Longrightarrow> remove_child loc (xs @ (loc, c) # ys) = Some (xs @ ys)"
  by (induction xs) auto

lemma remove_child_absent:
  "loc \<notin> fst ` set xs \<Longrightarrow> remove_child loc xs = None"
  by (induction xs) auto

lemma findall_one_child:
  assumes "children body = pre @ [super] @ post" and "tag super = name"
    and "name \<notin> set (tags_children pre)" and "name \<notin> set (tags_children post)"
    and "name \<notin> set (tags_children (children super))"
  shows "findall name body = [([length pre], super)]"
proof -
  have s: "filter (\<lambda>(loc, d). tag d = name) (iter [length pre] super) = [([length pre], super)]"
    using assms(2,5) by (cases super) (simp add: iter_no_tag)
  show ?thesis
    using assms(1,3,4) s by (simp add: findall_def iter_children_append iter_no_tag)
qed

lemma tags_children_append [simp]:
  "tags_children (xs @ ys) = tags_children xs @ tags_children ys"
  by (induction xs) simp_all

lemma handle_super_entries_one_child:
  assumes "children body = pre @ [super] @ post" and "tag super = tei_superEntry"
    and "tei_superEntry \<notin> set (tags_children (pre @ post @ children super))"
  shows "handle_super_entries body = Inr (set_children body (pre @ post @ children super))"
proof -
  let ?n = "length pre"
  have "tei_superEntry \<notin> set (tags_children pre)"
    "tei_superEntry \<notin> set (tags_children post)"
    "tei_superEntry \<notin> set (tags_children (children super))"
    using assms(3) by simp_all
  then have f: "findall tei_superEntry body = [([?n], super)]"
    by (rule findall_one_child[OF assms(1,2)])
  have notin: "[?n] \<notin> fst ` set (located [] 0 pre)"
  proof
    assume "[?n] \<in> fst ` set (located [] 0 pre)"
    then obtain w where "w \<in> set (located [] 0 pre)" and "fst w = [?n]" by auto
    with located_fst[of w "[]" 0 pre] show False by auto
  qed
  have "located [] 0 (children body) @ located [?n] 0 (children super) =
      located [] 0 pre @ ([?n], super) #
        (located [] (Suc ?n) post @ located [?n] 0 (children super))"
    by (simp add: assms(1) located_append)
  then have "remove_child [?n] (located [] 0 (children body) @ located [?n] 0 (children super)) =
      Some (located [] 0 pre @ located [] (Suc ?n) post @ located [?n] 0 (children super))"
    using remove_child_here[OF notin] by simp
  then show ?thesis
    by (simp add: handle_super_entries_def f)
qed

text \<open>
  A \<^verbatim>\<open>superEntry\<close> that is itself a child of the body. Let the body have, among its
  children, one \<^verbatim>\<open>superEntry\<close> with two children, and no other \<^verbatim>\<open>superEntry\<close>
  anywhere below it. Then the search finds that one element (so the guard of
  \<open>preprocess\<close> lets the handler run), and after \<open>handle_super_entries\<close> the children
  of the body are the other children in their order followed by the two entries: the
  entries are appended at the end, not put where the \<^verbatim>\<open>superEntry\<close> was. No
  \<^verbatim>\<open>superEntry\<close> is left below the body.
\<close>

lemma direct_super_entry_flattened:
  assumes "children body = pre @ [super] @ post" and "tag super = tei_superEntry"
    and "children super = [e1, e2]"
    and "tei_superEntry \<notin> set (tags_children (pre @ post @ [e1, e2]))"
  shows "findall tei_superEntry body = [([length pre], super)] \<and>
         handle_super_entries body = Inr (set_children body (pre @ post @ [e1, e2])) \<and>
         findall tei_superEntry (set_children body (pre @ post @ [e1, e2])) = []"
proof (intro conjI)
  have "tei_superEntry \<notin> set (tags_children pre)"
    "tei_superEntry \<notin> set (tags_children post)"
    "tei_superEntry \<notin> set (tags_children (children super))"
    using assms(3,4) by simp_all
  then show "findall tei_superEntry body = [([length pre], super)]"
    by (rule findall_one_child[OF assms(1,2)])
  show "handle_super_entries body = Inr (set_children body (pre @ post @ [e1, e2]))"
    using handle_super_entries_one_child[OF assms(1,2)] assms(3,4) by simp
  show "findall tei_superEntry (set_children body (pre @ post @ [e1, e2])) = []"
    using assms(4) by (intro findall_no_tag) simp
qed

lemma super_body_flattened:
  "children super_body =
     [Element ''{http://www.tei-c.org/ns/1.0}entry'' [] (Some ''a'') None []] @
     [children super_body ! 1] @
     [Element ''{http://www.tei-c.org/ns/1.0}entry'' [] (Some ''d'') None []] \<and>
   tag (children super_body ! 1) = tei_superEntry \<and>
   children (children super_body ! 1) =
     [Element ''{http://www.tei-c.org/ns/1.0}entry'' [] (Some ''b'') None [],
      Element ''{http://www.tei-c.org/ns/1.0}entry'' [] (Some ''c'') None []] \<and>
   handle_super_entries super_body =
     Inr (Element ''body'' [] None None
       [Element ''{http://www.tei-c.org/ns/1.0}entry'' [] (Some ''a'') None [],
        Element ''{http://www.tei-c.org/ns/1.0}entry'' [] (Some ''d'') None [],
        Element ''{http://www.tei-c.org/ns/1.0}entry'' [] (Some ''b'') None [],
        Element ''{http://www.tei-c.org/ns/1.0}entry'' [] (Some ''c'') None []])"
proof -
  let ?a = "Element ''{http://www.tei-c.org/ns/1.0}entry'' [] (Some ''a'') None []"
  let ?b = "Element ''{http://www.tei-c.org/ns/1.0}entry'' [] (Some ''b'') None []"
  let ?c = "Element ''{http://www.tei-c.org/ns/1.0}entry'' [] (Some ''c'') None []"
  let ?d = "Element ''{http://www.tei-c.org/ns/1.0}entry'' [] (Some ''d'') None []"
  have 1: "children super_body = [?a] @ [children super_body ! 1] @ [?d]"
    by (simp add: super_body_def)
  have 2: "tag (children super_body ! 1) = tei_superEntry"
    by (simp add: super_body_def tei_superEntry_def)
  have 3: "children (children super_body ! 1) = [?b, ?c]"
    by (simp add: super_body_def)
  have 4: "tei_superEntry \<notin> set (tags_children ([?a] @ [?d] @ [?b, ?c]))"
    by (simp add: tei_superEntry_def)
  show ?thesis
    using 1 2 3 direct_super_entry_flattened[OF 1 2 3 4]
    by (simp add: super_body_def)
qed

text \<open>
  The whole of \<open>preprocess\<close> on that body, as the main program passes it.
\<close>

lemma preprocess_super_body:
  "preprocess 2 (\<lambda>p. None) ''temp''
     (Element ''{http://www.tei-c.org/ns/1.0}body'' [] None None (children super_body)) [] =
     Inr (Element ''body'' [] None None
            [Element ''entry'' [] (Some ''a'') None [], Element ''entry'' [] (Some ''d'') None [],
             Element ''entry'' [] (Some ''b'') None [], Element ''entry'' [] (Some ''c'') None []],
          [])"
  by (simp add: numeral_2_eq_2 super_body_def handle_super_entries_def findall_def
      startswith_def tei_ns_def tei_superEntry_def xi_include_def)

text \<open>
  C6. A body that has a \<^verbatim>\<open>superEntry\<close> with exactly two entries among its descendants
  is not always flattened. The search \<^verbatim>\<open>.//superEntry\<close> finds the element at any depth,
  but \<^verbatim>\<open>parent.remove(super)\<close> removes a direct child only. In the body below the one
  \<^verbatim>\<open>superEntry\<close>, with its two entries, lies inside a \<^verbatim>\<open>div\<close>: the search finds it
  at position 0 of child 0, the handler appends the two entries to the body and then
  raises \<^verbatim>\<open>ValueError\<close>, and \<open>preprocess\<close> on the document ends with that exception
  instead of a body holding the two entries and no \<^verbatim>\<open>superEntry\<close>.
\<close>

theorem nested_super_entry_raises:
  "findall tei_superEntry nested_super_body =
     [([0, 0],
       Element ''{http://www.tei-c.org/ns/1.0}superEntry'' [] None None
         [Element ''{http://www.tei-c.org/ns/1.0}entry'' [] (Some ''b'') None [],
          Element ''{http://www.tei-c.org/ns/1.0}entry'' [] (Some ''c'') None []])] \<and>
   handle_super_entries nested_super_body = Inl ValueError \<and>
   preprocess 4 (\<lambda>p. None) ''temp''
     (Element ''{http://www.tei-c.org/ns/1.0}body'' [] None None (children nested_super_body))
     [] = Inl ValueError"
  by (simp add: numeral_eq_Suc nested_super_body_def handle_super_entries_def findall_def
      startswith_def tei_ns_def tei_superEntry_def xi_include_def)

subsection \<open>Resolving inclusions\<close>

lemma include_entries_none:
  "xi_include \<notin> tag ` set xs \<Longrightarrow> include_entries fs path xs entries = Inr entries"
  by (induction xs arbitrary: entries) auto

lemma include_entries_append:
  "include_entries fs path (xs @ ys) entries =
     (case include_entries fs path xs entries of
        Inl e \<Rightarrow> Inl e
      | Inr entries' \<Rightarrow> include_entries fs path ys entries')"
  by (induction xs arbitrary: entries) (auto split: option.splits)

lemma include_entries_directive:
  assumes "tag inc = xi_include" and "map_of (attrib inc) ''href'' = Some href"
    and "fs (path @ ''/'' @ href) = Some root"
  shows "include_entries fs path [inc] entries = Inr (entries @ children root)"
  using assms by simp

lemma iter_children_tag:
  "c \<in> set cs \<Longrightarrow> tag c = name \<Longrightarrow>
     filter (\<lambda>(loc, d). tag d = name) (iter_children loc i cs) \<noteq> []"
proof (induction cs arbitrary: i)
  case Nil
  then show ?case by simp
next
  case (Cons d cs)
  show ?case
  proof (cases "c = d")
    case True
    with Cons.prems(2) show ?thesis by (cases d) simp
  next
    case False
    with Cons.prems have "c \<in> set cs" by simp
    from Cons.IH[OF this Cons.prems(2)] show ?thesis by simp
  qed
qed

lemma findall_child: "c \<in> set (children e) \<Longrightarrow> tag c = name \<Longrightarrow> findall name e \<noteq> []"
  by (simp add: findall_def iter_children_tag)

text \<open>
  C5, as the specification states it, fails in its last part. The body includes
  \<^verbatim>\<open>c.tei\<close> and \<^verbatim>\<open>b.tei\<close>; the first child of the root of \<^verbatim>\<open>c.tei\<close> is an inclusion
  directive, and after \<open>handle_includes\<close> that directive is a child of the body:
  inclusions are resolved one level deep, not recursively.
\<close>

theorem directive_remains_counterexample:
  "handle_includes example_files ''temp'' (include_body ''c.tei'' ''b.tei'') =
     Inr (Element ''body'' [] None None (children file_c @ children file_b)) \<and>
   xi_include \<in>
     tag ` set (children (Element ''body'' [] None None (children file_c @ children file_b)))"
  by (simp add: handle_includes_def include_body_def example_files_def xi_include_def
      file_c_def file_b_def)

text \<open>
  C5, amended. Let the children of the body hold two inclusion directives, for the
  files A and then B, both readable, and no third one. Then the search finds a
  directive (the guard of \<open>preprocess\<close> lets the handler run), and after
  \<open>handle_includes\<close> the children of the body are the children of the root of A
  followed by the children of the root of B; the directives of the body and its other
  children are gone, as are its attributes and text. No inclusion directive is among the
  children of the body provided neither root has one among its own children.
\<close>

theorem includes_spliced:
  assumes "children body = pre @ [incA] @ mid @ [incB] @ post"
    and "tag incA = xi_include" and "tag incB = xi_include"
    and "xi_include \<notin> tag ` set (pre @ mid @ post)"
    and "map_of (attrib incA) ''href'' = Some a" and "map_of (attrib incB) ''href'' = Some b"
    and "fs (path @ ''/'' @ a) = Some rootA" and "fs (path @ ''/'' @ b) = Some rootB"
  shows "findall xi_include body \<noteq> [] \<and>
         handle_includes fs path body =
           Inr (Element (tag body) [] None None (children rootA @ children rootB)) \<and>
         (xi_include \<notin> tag ` set (children rootA) \<and> xi_include \<notin> tag ` set (children rootB) \<longrightarrow>
            (\<forall>r. handle_includes fs path body = Inr r \<longrightarrow> xi_include \<notin> tag ` set (children r)))"
proof -
  have "incA \<in> set (children body)"
    by (simp add: assms(1))
  then have g: "findall xi_include body \<noteq> []"
    using assms(2) by (rule findall_child)
  have n: "xi_include \<notin> tag ` set pre" "xi_include \<notin> tag ` set mid"
    "xi_include \<notin> tag ` set post"
    using assms(4) by auto
  have "include_entries fs path (pre @ [incA] @ mid @ [incB] @ post) [] =
      Inr (children rootA @ children rootB)"
    by (simp only: include_entries_append include_entries_none[OF n(1)]
        include_entries_none[OF n(2)] include_entries_none[OF n(3)]
        include_entries_directive[where fs = fs and path = path, OF assms(2,5,7)]
        include_entries_directive[where fs = fs and path = path, OF assms(3,6,8)]
        sum.case append_Nil)
  then have h: "handle_includes fs path body =
      Inr (Element (tag body) [] None None (children rootA @ children rootB))"
    by (simp add: handle_includes_def assms(1))
  show ?thesis
    using g h by auto
qed

theorem includes_spliced_witness:
  "handle_includes example_files ''temp'' (include_body ''a.tei'' ''b.tei'') =
     Inr (Element ''body'' [] None None
       [Element ''{http://www.tei-c.org/ns/1.0}entry'' [] (Some ''a1'') None [],
        Element ''{http://www.tei-c.org/ns/1.0}entry'' [] (Some ''a2'') None [],
        Element ''{http://www.tei-c.org/ns/1.0}entry'' [] (Some ''b1'') None []]) \<and>
   findall xi_include (include_body ''a.tei'' ''b.tei'') \<noteq> [] \<and>
   xi_include \<notin> tag ` set (children file_a) \<and> xi_include \<notin> tag ` set (children file_b)"
proof -
  let ?ia = "Element ''{http://www.w3.org/2001/XInclude}include'' [(''href'', ''a.tei'')] None None []"
  let ?ib = "Element ''{http://www.w3.org/2001/XInclude}include'' [(''href'', ''b.tei'')] None None []"
  let ?own = "Element ''{http://www.tei-c.org/ns/1.0}entry'' [] (Some ''own'') None []"
  have 1: "children (include_body ''a.tei'' ''b.tei'') = [] @ [?ia] @ [?own] @ [?ib] @ []"
    by (simp add: include_body_def)
  have 2: "tag ?ia = xi_include" and 3: "tag ?ib = xi_include"
    by (simp_all add: xi_include_def)
  have 4: "xi_include \<notin> tag ` set ([] @ [?own] @ [])"
    by (simp add: xi_include_def)
  have 5: "map_of (attrib ?ia) ''href'' = Some ''a.tei''"
    and 6: "map_of (attrib ?ib) ''href'' = Some ''b.tei''"
    by simp_all
  have 7: "example_files (''temp'' @ ''/'' @ ''a.tei'') = Some file_a"
    and 8: "example_files (''temp'' @ ''/'' @ ''b.tei'') = Some file_b"
    by (simp_all add: example_files_def)
  have 9: "xi_include \<notin> tag ` set (children file_a) \<and> xi_include \<notin> tag ` set (children file_b)"
    by (simp add: file_a_def file_b_def xi_include_def)
  show ?thesis
    using 9 includes_spliced[OF 1 2 3 4 5 6 7 8]
    by (simp add: include_body_def file_a_def file_b_def)
qed

end
